theory Spec2Isabelle
  imports Main
begin

section \<open>Strings\<close>

text \<open>
  A JavaScript string is modelled as a \<^typ>\<open>string\<close>: one \<^typ>\<open>char\<close> per code unit,
  restricted to code units below 256.  \<open>length\<close> is the JavaScript \<open>.length\<close> of such a
  string.
\<close>

abbreviation DQUOTE :: char where "DQUOTE \<equiv> CHR 0x22"
abbreviation SQUOTE :: char where "SQUOTE \<equiv> CHR 0x27"
abbreviation NEWLINE :: char where "NEWLINE \<equiv> CHR 0x0A"
abbreviation COMMA :: char where "COMMA \<equiv> CHR 0x2C"
abbreviation CRETURN :: char where "CRETURN \<equiv> CHR 0x0D"
abbreviation FENCE :: string where "FENCE \<equiv> ''```''"

definition isSpace :: "char \<Rightarrow> bool" where
  \<comment> \<open>the class \<open>\s\<close> of a regular expression, which is also what \<open>trim\<close> strips\<close>
  "isSpace c \<longleftrightarrow>
     c \<in> {CHR 0x09, CHR 0x0A, CHR 0x0B, CHR 0x0C, CHR 0x0D, CHR 0x20, CHR 0xA0}"

definition toLower :: "char \<Rightarrow> char" where
  \<comment> \<open>case folding of the letters A to Z; no other character folds to an ASCII letter\<close>
  "toLower c =
     (case map_of (zip ''ABCDEFGHIJKLMNOPQRSTUVWXYZ'' ''abcdefghijklmnopqrstuvwxyz'') c of
        Some l \<Rightarrow> l
      | None \<Rightarrow> c)"

definition trim :: "string \<Rightarrow> string" where
  "trim s = rev (dropWhile isSpace (rev (dropWhile isSpace s)))"

definition indexOf :: "string \<Rightarrow> char \<Rightarrow> int" where
  "indexOf s c = (if c \<in> set s then int (length (takeWhile (\<lambda>x. x \<noteq> c) s)) else - 1)"

definition lastIndexOf :: "string \<Rightarrow> char \<Rightarrow> int" where
  "lastIndexOf s c =
     (if c \<in> set s then int (length s) - 1 - int (length (takeWhile (\<lambda>x. x \<noteq> c) (rev s)))
      else - 1)"

text \<open>\<open>s.substring(start, fin)\<close>: both indices are clamped to the string and swapped if
  they come in the wrong order.\<close>

definition substring :: "string \<Rightarrow> int \<Rightarrow> int \<Rightarrow> string" where
  "substring s start fin =
     (let len = int (length s);
          a = max 0 (min start len);
          b = max 0 (min fin len)
      in take (nat (max a b - min a b)) (drop (nat (min a b)) s))"

definition endsWith :: "string \<Rightarrow> string \<Rightarrow> bool" where
  "endsWith s suffix \<longleftrightarrow>
     length suffix \<le> length s \<and> drop (length s - length suffix) s = suffix"

fun includesStr :: "string \<Rightarrow> string \<Rightarrow> bool" where
  "includesStr [] needle = (needle = [])"
| "includesStr (c # cs) needle =
     (take (length needle) (c # cs) = needle \<or> includesStr cs needle)"

section \<open>Regular expressions\<close>

text \<open>
  The regular expressions of the route are matched as ECMAScript matches them: by
  backtracking, alternatives tried from left to right, a greedy quantifier trying the
  longest repetition first and a lazy one the shortest.  \<open>rmatch r c s k\<close> matches \<open>r\<close> at
  the front of \<open>s\<close> and hands the rest of the input to the continuation \<open>k\<close>; the first way
  of matching on which \<open>k\<close> succeeds is the result.  \<open>c\<close> is the text of capture group 1, the
  only group these expressions have.  A repetition takes an iteration only if it consumed
  input, so \<open>length s\<close> iterations are enough for any repetition on \<open>s\<close>
  (\<open>repetition_bound_enough\<close> below).
\<close>

datatype rx =
    Lit string
  | LitI string
  | Cls "char \<Rightarrow> bool"
  | Seq rx rx
  | Alt rx rx
  | Opt rx
  | Star rx
  | StarLazy rx
  | Plus rx
  | Grp rx

type_synonym 'a cont = "string option \<Rightarrow> string \<Rightarrow> 'a option"
type_synonym 'a matcher = "string option \<Rightarrow> string \<Rightarrow> 'a cont \<Rightarrow> 'a option"

fun starGreedy :: "'a matcher \<Rightarrow> nat \<Rightarrow> 'a matcher" where
  "starGreedy m 0 c s k = k c s"
| "starGreedy m (Suc n) c s k =
     (case m c s (\<lambda>c' s'. if length s' < length s then starGreedy m n c' s' k else None) of
        Some r \<Rightarrow> Some r
      | None \<Rightarrow> k c s)"

fun starLazy :: "'a matcher \<Rightarrow> nat \<Rightarrow> 'a matcher" where
  "starLazy m 0 c s k = k c s"
| "starLazy m (Suc n) c s k =
     (case k c s of
        Some r \<Rightarrow> Some r
      | None \<Rightarrow> m c s (\<lambda>c' s'. if length s' < length s then starLazy m n c' s' k else None))"

primrec rmatch :: "rx \<Rightarrow> 'a matcher" where
  "rmatch (Lit l) c s k = (if take (length l) s = l then k c (drop (length l) s) else None)"
| "rmatch (LitI l) c s k =
     (if map toLower (take (length l) s) = map toLower l then k c (drop (length l) s)
      else None)"
| "rmatch (Cls P) c s k = (case s of [] \<Rightarrow> None | x # xs \<Rightarrow> if P x then k c xs else None)"
| "rmatch (Seq a b) c s k = rmatch a c s (\<lambda>c' s'. rmatch b c' s' k)"
| "rmatch (Alt a b) c s k =
     (case rmatch a c s k of Some r \<Rightarrow> Some r | None \<Rightarrow> rmatch b c s k)"
| "rmatch (Opt a) c s k = (case rmatch a c s k of Some r \<Rightarrow> Some r | None \<Rightarrow> k c s)"
| "rmatch (Star a) c s k = starGreedy (rmatch a) (length s) c s k"
| "rmatch (StarLazy a) c s k = starLazy (rmatch a) (length s) c s k"
| "rmatch (Plus a) c s k =
     rmatch a c s (\<lambda>c' s'. starGreedy (rmatch a) (length s') c' s' k)"
| "rmatch (Grp a) c s k =
     rmatch a c s (\<lambda>c' s'. k (Some (take (length s - length s') s)) s')"

text \<open>A match: the matched text (element 0 of the match array), capture group 1
  (element 1, \<open>None\<close> for \<open>undefined\<close>) and the input after the match.\<close>

record rxMatch =
  matched :: string
  group1 :: "string option"
  after :: string

definition matchAt :: "rx \<Rightarrow> string \<Rightarrow> rxMatch option" where
  "matchAt r s =
     rmatch r None s
       (\<lambda>c s'. Some \<lparr>matched = take (length s - length s') s, group1 = c, after = s'\<rparr>)"

text \<open>\<open>str.match(r)\<close> without the \<open>g\<close> flag: the match at the leftmost position that has
  one.\<close>

fun regexExec :: "rx \<Rightarrow> string \<Rightarrow> rxMatch option" where
  "regexExec r [] = matchAt r []"
| "regexExec r (x # xs) =
     (case matchAt r (x # xs) of Some m \<Rightarrow> Some m | None \<Rightarrow> regexExec r xs)"

text \<open>
  \<open>str.match(r)\<close> with the \<open>g\<close> flag: the matched texts from left to right, each search
  starting where the previous match ended (one position further after an empty match).
  \<open>skip\<close> counts the positions that lie inside the previous match.  The empty list stands
  for the \<open>null\<close> that JavaScript returns when nothing matches.
\<close>

fun matchGlobalFrom :: "rx \<Rightarrow> nat \<Rightarrow> string \<Rightarrow> string list" where
  "matchGlobalFrom r skip [] =
     (if skip = 0 then (case matchAt r [] of Some m \<Rightarrow> [matched m] | None \<Rightarrow> []) else [])"
| "matchGlobalFrom r skip (x # xs) =
     (if skip = 0 then
        (case matchAt r (x # xs) of
           Some m \<Rightarrow> matched m # matchGlobalFrom r (length (matched m) - 1) xs
         | None \<Rightarrow> matchGlobalFrom r 0 xs)
      else matchGlobalFrom r (skip - 1) xs)"

definition matchGlobal :: "rx \<Rightarrow> string \<Rightarrow> string list" where
  "matchGlobal r s = matchGlobalFrom r 0 s"

text \<open>The three regular expressions of \<open>processImage\<close>:
  \<^verbatim>\<open>/```(?:json)?\s*([\s\S]*?)\s*```/\<close>,
  \<^verbatim>\<open>/(?:comment|text|username)[:\s]+["']?([^"'\n]+)["']?/gi\<close> and
  \<^verbatim>\<open>/["']?([^"'\n]+)["']?/\<close>.\<close>

definition isQuote :: "char \<Rightarrow> bool" where
  "isQuote c \<longleftrightarrow> c = DQUOTE \<or> c = SQUOTE"

definition fenceRx :: rx where
  "fenceRx =
     Seq (Lit ''```'') (Seq (Opt (Lit ''json'')) (Seq (Star (Cls isSpace))
       (Seq (Grp (StarLazy (Cls (\<lambda>c. True)))) (Seq (Star (Cls isSpace)) (Lit ''```'')))))"

definition isValueChar :: "char \<Rightarrow> bool" where
  \<comment> \<open>the class \<^verbatim>\<open>[^"'\n]\<close>\<close>
  "isValueChar c \<longleftrightarrow> \<not> isQuote c \<and> c \<noteq> NEWLINE"

definition isLabelSep :: "char \<Rightarrow> bool" where
  \<comment> \<open>the class \<^verbatim>\<open>[:\s]\<close>\<close>
  "isLabelSep c \<longleftrightarrow> c = CHR '':'' \<or> isSpace c"

definition valueRx :: rx where
  "valueRx = Seq (Opt (Cls isQuote)) (Seq (Grp (Plus (Cls isValueChar))) (Opt (Cls isQuote)))"

definition labelRx :: rx where
  "labelRx = Alt (LitI ''comment'') (Alt (LitI ''text'') (LitI ''username''))"

definition patternRx :: rx where
  "patternRx = Seq labelRx (Seq (Plus (Cls isLabelSep)) valueRx)"

text \<open>A text that starts with one of the three labels, in upper or lower case.\<close>

definition hasLabel :: "string \<Rightarrow> bool" where
  "hasLabel p \<longleftrightarrow>
     (\<exists>l \<in> set [''comment'', ''text'', ''username'']. map toLower (take (length l) p) = l)"

section \<open>JSON values and \<open>JSON.parse\<close>\<close>

text \<open>
  A parsed JSON value.  A number keeps its lexeme; an object is the list of its properties
  in the order of their first occurrence.
\<close>

datatype json =
    JNull
  | JBool bool
  | JNum string
  | JStr string
  | JArr "json list"
  | JObj "(string \<times> json) list"

datatype jsError = SyntaxError | TypeError | Error string

text \<open>\<open>parsedComments.comments\<close>: reading a property of \<open>null\<close> throws a \<open>TypeError\<close>; an
  object has the property if its text had the key; on any other value the property is
  \<open>undefined\<close> (\<open>None\<close>).\<close>

fun commentsOf :: "json \<Rightarrow> jsError + json option" where
  "commentsOf JNull = Inl TypeError"
| "commentsOf (JObj ps) = Inr (map_of ps ''comments'')"
| "commentsOf v = Inr None"

text \<open>The truth value of a property.  A number is false when it is zero: when its
  mantissa has no digit but 0.\<close>

fun truthy :: "json option \<Rightarrow> bool" where
  "truthy None = False"
| "truthy (Some JNull) = False"
| "truthy (Some (JBool b)) = b"
| "truthy (Some (JNum n)) =
     (\<not> list_all (\<lambda>c. c \<in> set ''-0.'') (takeWhile (\<lambda>c. c \<noteq> CHR ''e'' \<and> c \<noteq> CHR ''E'') n))"
| "truthy (Some (JStr s)) = (s \<noteq> [])"
| "truthy (Some (JArr vs)) = True"
| "truthy (Some (JObj ps)) = True"

fun isArray :: "json option \<Rightarrow> bool" where
  "isArray (Some (JArr vs)) = True"
| "isArray v = False"

text \<open>
  \<open>JSON.parse\<close> belongs to the platform, not to the repository, so the normalizer below
  takes it as a parameter \<open>parse\<close> (\<open>None\<close> when it throws a \<open>SyntaxError\<close>).  \<open>JSON_parse\<close> is
  a reference parser for the JSON grammar, used where a concrete text has to be parsed.
  It covers texts whose \<open>\u\<close> escapes denote code units below 256.  A later duplicate of a
  key replaces the value of the earlier one.  The first argument of \<open>parseValue\<close>,
  \<open>parseElements\<close> and \<open>parseMembers\<close> bounds the depth of their calls; the bound
  \<open>2 * length s + 1\<close> is never exhausted on \<open>s\<close> (\<open>parseValue_bound_enough\<close> below).
\<close>

fun setProp :: "string \<Rightarrow> json \<Rightarrow> (string \<times> json) list \<Rightarrow> (string \<times> json) list" where
  "setProp k v [] = [(k, v)]"
| "setProp k v (p # ps) = (if fst p = k then (k, v) # ps else p # setProp k v ps)"

definition isJsonWs :: "char \<Rightarrow> bool" where
  "isJsonWs c \<longleftrightarrow> c \<in> {CHR 0x20, CHR 0x09, CHR 0x0A, CHR 0x0D}"

definition skipWs :: "string \<Rightarrow> string" where
  "skipWs s = dropWhile isJsonWs s"

definition isDigit :: "char \<Rightarrow> bool" where
  "isDigit c \<longleftrightarrow> c \<in> set ''0123456789''"

definition hexVal :: "char \<Rightarrow> nat option" where
  "hexVal c = map_of (zip ''0123456789abcdefABCDEF'' ([0..<16] @ [10..<16])) c"

definition escapeChar :: "char \<Rightarrow> char option" where
  "escapeChar c =
     map_of
       [(DQUOTE, DQUOTE), (CHR 0x5C, CHR 0x5C), (CHR ''/'', CHR ''/''), (CHR ''b'', CHR 0x08),
        (CHR ''f'', CHR 0x0C), (CHR ''n'', CHR 0x0A), (CHR ''r'', CHR 0x0D),
        (CHR ''t'', CHR 0x09)] c"

definition unicodeEscape :: "char \<Rightarrow> char \<Rightarrow> char \<Rightarrow> char \<Rightarrow> char option" where
  "unicodeEscape a b c d =
     (case (hexVal a, hexVal b, hexVal c, hexVal d) of
        (Some w, Some x, Some y, Some z) \<Rightarrow>
          if w = 0 \<and> x = 0 then Some (char_of (16 * y + z)) else None
      | _ \<Rightarrow> None)"

text \<open>The characters of a string literal, after its opening quote.\<close>

fun parseChars :: "string \<Rightarrow> (string \<times> string) option" where
  "parseChars [] = None"
| "parseChars (c # cs) =
     (if c = DQUOTE then Some ([], cs)
      else if c = CHR 0x5C then
        (case cs of
           [] \<Rightarrow> None
         | e # r \<Rightarrow>
             if e = CHR ''u'' then
               (case r of
                  h1 # h2 # h3 # h4 # r' \<Rightarrow>
                    (case unicodeEscape h1 h2 h3 h4 of
                       None \<Rightarrow> None
                     | Some x \<Rightarrow> map_option (\<lambda>(str, rest). (x # str, rest)) (parseChars r'))
                | _ \<Rightarrow> None)
             else
               (case escapeChar e of
                  None \<Rightarrow> None
                | Some x \<Rightarrow> map_option (\<lambda>(str, rest). (x # str, rest)) (parseChars r)))
      else if (of_char c :: nat) < 32 then None
      else map_option (\<lambda>(str, rest). (c # str, rest)) (parseChars cs))"

definition numInt :: "string \<Rightarrow> (string \<times> string) option" where
  "numInt s =
     (case s of
        [] \<Rightarrow> None
      | d # r \<Rightarrow>
          if d = CHR ''0'' then Some ([d], r)
          else if isDigit d then Some (d # takeWhile isDigit r, dropWhile isDigit r)
          else None)"

definition numFrac :: "string \<Rightarrow> (string \<times> string) option" where
  "numFrac s =
     (case s of
        [] \<Rightarrow> Some ([], s)
      | d # r \<Rightarrow>
          if d = CHR ''.'' then
            (if takeWhile isDigit r = [] then None
             else Some (d # takeWhile isDigit r, dropWhile isDigit r))
          else Some ([], s))"

definition numExp :: "string \<Rightarrow> (string \<times> string) option" where
  "numExp s =
     (case s of
        [] \<Rightarrow> Some ([], s)
      | e # r \<Rightarrow>
          if e = CHR ''e'' \<or> e = CHR ''E'' then
            (let sg = (case r of
                         [] \<Rightarrow> []
                       | x # _ \<Rightarrow> if x = CHR ''+'' \<or> x = CHR ''-'' then [x] else []);
                 r' = drop (length sg) r
             in if takeWhile isDigit r' = [] then None
                else Some (e # sg @ takeWhile isDigit r', dropWhile isDigit r'))
          else Some ([], s))"

definition parseNumber :: "string \<Rightarrow> (string \<times> string) option" where
  "parseNumber s =
     (let sg = (case s of [] \<Rightarrow> [] | x # _ \<Rightarrow> if x = CHR ''-'' then [x] else [])
      in case numInt (drop (length sg) s) of
           None \<Rightarrow> None
         | Some (i, r1) \<Rightarrow>
             (case numFrac r1 of
                None \<Rightarrow> None
              | Some (f, r2) \<Rightarrow>
                  (case numExp r2 of
                     None \<Rightarrow> None
                   | Some (e, r3) \<Rightarrow> Some (sg @ i @ f @ e, r3))))"

fun parseValue :: "nat \<Rightarrow> string \<Rightarrow> (json \<times> string) option"
  and parseElements :: "nat \<Rightarrow> json list \<Rightarrow> string \<Rightarrow> (json \<times> string) option"
  and parseMembers :: "nat \<Rightarrow> (string \<times> json) list \<Rightarrow> string \<Rightarrow> (json \<times> string) option"
where
  "parseValue 0 s = None"
| "parseValue (Suc n) s =
     (case skipWs s of
        [] \<Rightarrow> None
      | c # cs \<Rightarrow>
          if c = CHR ''{'' then
            (case skipWs cs of
               [] \<Rightarrow> None
             | d # r \<Rightarrow> if d = CHR ''}'' then Some (JObj [], r) else parseMembers n [] cs)
          else if c = CHR ''['' then
            (case skipWs cs of
               [] \<Rightarrow> None
             | d # r \<Rightarrow> if d = CHR '']'' then Some (JArr [], r) else parseElements n [] cs)
          else if c = DQUOTE then map_option (\<lambda>(str, r). (JStr str, r)) (parseChars cs)
          else if take 4 (c # cs) = ''true'' then Some (JBool True, drop 4 (c # cs))
          else if take 5 (c # cs) = ''false'' then Some (JBool False, drop 5 (c # cs))
          else if take 4 (c # cs) = ''null'' then Some (JNull, drop 4 (c # cs))
          else map_option (\<lambda>(lexeme, r). (JNum lexeme, r)) (parseNumber (c # cs)))"
| "parseElements 0 acc s = None"
| "parseElements (Suc n) acc s =
     (case parseValue n s of
        None \<Rightarrow> None
      | Some (v, r) \<Rightarrow>
          (case skipWs r of
             [] \<Rightarrow> None
           | d # r' \<Rightarrow>
               if d = COMMA then parseElements n (acc @ [v]) r'
               else if d = CHR '']'' then Some (JArr (acc @ [v]), r')
               else None))"
| "parseMembers 0 acc s = None"
| "parseMembers (Suc n) acc s =
     (case skipWs s of
        [] \<Rightarrow> None
      | q # r0 \<Rightarrow>
          if q \<noteq> DQUOTE then None
          else
            (case parseChars r0 of
               None \<Rightarrow> None
             | Some (key, r1) \<Rightarrow>
                 (case skipWs r1 of
                    [] \<Rightarrow> None
                  | colon # r2 \<Rightarrow>
                      if colon \<noteq> CHR '':'' then None
                      else
                        (case parseValue n r2 of
                           None \<Rightarrow> None
                         | Some (v, r3) \<Rightarrow>
                             (case skipWs r3 of
                                [] \<Rightarrow> None
                              | d # r4 \<Rightarrow>
                                  if d = COMMA then parseMembers n (setProp key v acc) r4
                                  else if d = CHR ''}'' then
                                    Some (JObj (setProp key v acc), r4)
                                  else None)))))"

definition JSON_parse :: "string \<Rightarrow> json option" where
  "JSON_parse s =
     (case parseValue (Suc (2 * length s)) s of
        None \<Rightarrow> None
      | Some (v, r) \<Rightarrow> if skipWs r = [] then Some v else None)"

section \<open>Response normalizer: the parsing steps of \<open>processImage\<close>\<close>

text \<open>
  The candidate text handed to \<open>JSON.parse\<close>: the trimmed response; replaced by the trimmed
  content of the first fenced block if the response has one (strategy 1); then narrowed to
  the span from its first \<open>{\<close> to its last \<open>}\<close> if it has such a span (strategy 2).
  \<open>jsonBlockMatch[1].trim()\<close> would throw on an \<open>undefined\<close> group.

  The statements \<open>fetch(...).catch(()=>{})\<close>, which post a progress record to a local collector,
  are left out: their promise is neither awaited nor used and its rejection is handled, and
  \<open>fetch\<close> is a global of the runtime the route declares (\<open>nodejs\<close>).  The arguments they
  evaluate cannot throw where they stand.
\<close>

definition braceSpan :: "string \<Rightarrow> string" where
  "braceSpan jsonString =
     (let firstBrace = indexOf jsonString (CHR ''{'');
          lastBrace = lastIndexOf jsonString (CHR ''}'')
      in if firstBrace \<noteq> - 1 \<and> lastBrace \<noteq> - 1 \<and> lastBrace > firstBrace
         then substring jsonString firstBrace (lastBrace + 1)
         else jsonString)"

definition extractJsonString :: "string \<Rightarrow> jsError + string" where
  "extractJsonString responseText =
     (case regexExec fenceRx (trim responseText) of
        None \<Rightarrow> Inr (braceSpan (trim responseText))
      | Some jsonBlockMatch \<Rightarrow>
          (case group1 jsonBlockMatch of
             None \<Rightarrow> Inl TypeError
           | Some g \<Rightarrow> Inr (braceSpan (trim g))))"

text \<open>The \<open>try\<close> block: the value of \<open>parsedComments\<close> when the block completes, the error
  thrown otherwise.\<close>

definition parseJsonResponse :: "(string \<Rightarrow> json option) \<Rightarrow> string \<Rightarrow> jsError + json" where
  "parseJsonResponse parse responseText =
     (case extractJsonString responseText of
        Inl e \<Rightarrow> Inl e
      | Inr jsonString \<Rightarrow>
          (case parse jsonString of
             None \<Rightarrow> Inl SyntaxError
           | Some parsedComments \<Rightarrow>
               (case commentsOf parsedComments of
                  Inl e \<Rightarrow> Inl e
                | Inr cs \<Rightarrow>
                    if \<not> truthy cs \<or> \<not> isArray cs
                    then Inl (Error ''Invalid JSON structure: missing comments array'')
                    else Inr parsedComments)))"

text \<open>The \<open>catch\<close> block: the value it assigns to \<open>parsedComments\<close>.  \<open>match[1]\<close> of an
  \<open>undefined\<close> group would leave the comment without a \<open>text\<close>.\<close>

definition scrapedComment :: "string \<Rightarrow> json" where
  "scrapedComment pattern =
     (case regexExec valueRx pattern of
        None \<Rightarrow> JObj [(''text'', JStr pattern)]
      | Some m \<Rightarrow> (case group1 m of None \<Rightarrow> JObj [] | Some g \<Rightarrow> JObj [(''text'', JStr g)]))"

definition scrapeComments :: "string \<Rightarrow> json" where
  "scrapeComments responseText =
     (let commentPatterns = matchGlobal patternRx responseText
      in if commentPatterns \<noteq> []
         then JObj [(''comments'', JArr (map scrapedComment commentPatterns))]
         else JObj [(''comments'', JArr [JObj [(''text'', JStr (substring responseText 0 500))]])])"

text \<open>The normalizer: \<open>try\<close>, \<open>catch\<close>, and the expression \<open>parsedComments.comments || []\<close>
  of the returned record.\<close>

definition normalizeResponse :: "(string \<Rightarrow> json option) \<Rightarrow> string \<Rightarrow> jsError + json" where
  "normalizeResponse parse responseText =
     (let parsedComments =
            (case parseJsonResponse parse responseText of
               Inr p \<Rightarrow> p
             | Inl parseError \<Rightarrow> scrapeComments responseText)
      in case commentsOf parsedComments of
           Inl e \<Rightarrow> Inl e
         | Inr None \<Rightarrow> Inr (JArr [])
         | Inr (Some cs) \<Rightarrow> Inr (if truthy (Some cs) then cs else JArr []))"


section \<open>Export formatter: \<open>src/lib/csv-export.ts\<close>\<close>

text \<open>
  The interface \<open>Comment\<close> of \<open>csv-export.ts\<close>, its fields prefixed with \<open>c_\<close>.  An
  optional field that is absent (\<open>undefined\<close>) is \<open>None\<close>.
\<close>

record Comment =
  c_imageName :: string
  c_username :: "string option"
  c_text :: string
  c_timestamp :: "string option"
  c_likes :: "string option"

text \<open>\<open>value.replace(/"/g, '""')\<close>: every quote character becomes two.\<close>

definition doubleQuotes :: "string \<Rightarrow> string" where
  "doubleQuotes v = concat (map (\<lambda>c. if c = DQUOTE then [DQUOTE, DQUOTE] else [c]) v)"

text \<open>
  \<open>escapeCSV\<close>.  \<open>!value\<close> holds for \<open>undefined\<close>, \<open>null\<close> and the empty string.
  \<open>includes\<close> on a one-character needle is membership in the set of characters.
\<close>

definition escapeCSV :: "string option \<Rightarrow> string" where
  "escapeCSV v =
     (case v of
        None \<Rightarrow> []
      | Some s \<Rightarrow>
          if s = [] then []
          else
            let escaped = doubleQuotes s in
            if COMMA \<in> set escaped \<or> DQUOTE \<in> set escaped \<or> NEWLINE \<in> set escaped
            then [DQUOTE] @ escaped @ [DQUOTE]
            else escaped)"

text \<open>\<open>Array.prototype.join\<close> on an array of strings.\<close>

fun join :: "string \<Rightarrow> string list \<Rightarrow> string" where
  "join sep [] = []"
| "join sep [x] = x"
| "join sep (x # y # ys) = x @ sep @ join sep (y # ys)"

definition headers :: "string list" where
  "headers = [''Image Name'', ''Username'', ''Comment Text'', ''Timestamp'', ''Likes'']"

definition csvRow :: "Comment \<Rightarrow> string list" where
  "csvRow c =
     [escapeCSV (Some (c_imageName c)), escapeCSV (c_username c), escapeCSV (Some (c_text c)),
      escapeCSV (c_timestamp c), escapeCSV (c_likes c)]"

definition generateCSV :: "Comment list \<Rightarrow> string" where
  "generateCSV comments =
     join [NEWLINE] (join [COMMA] headers # map (\<lambda>c. join [COMMA] (csvRow c)) comments)"

text \<open>The texts of the five columns of a comment, an absent field as the empty text.\<close>

definition commentFields :: "Comment \<Rightarrow> string list" where
  "commentFields c =
     [c_imageName c, (case c_username c of None \<Rightarrow> [] | Some v \<Rightarrow> v), c_text c,
      (case c_timestamp c of None \<Rightarrow> [] | Some v \<Rightarrow> v),
      (case c_likes c of None \<Rightarrow> [] | Some v \<Rightarrow> v)]"

text \<open>
  Modelled from the spec: the reader of an exported table, which the repository does not
  contain (it only writes CSV).  It follows the quote rules of RFC 4180, as common readers
  apply them.  A field that opens with a quote runs to the first quote that is not doubled,
  and a doubled quote stands for one quote; after the closing quote a separator or the end
  of the input must follow.  Any other field runs to the next comma, carriage return or
  line feed, and holds no quote.  A comma ends a field; a line break ends a record, and a
  line break is a line feed (which the export writes), a carriage return, or the pair of
  them (which RFC 4180 writes); a line break at the very end opens no further record.  The
  reader goes through the input character by character, in one of six modes, with the
  field, the record and the table read so far; a malformed or unfinished input has no
  result.
\<close>

datatype csvMode = FieldStart | Unquoted | Quoted | QuoteSeen | AfterReturn | Malformed

type_synonym csvState = "csvMode \<times> string \<times> string list \<times> string list list"

definition isSeparator :: "char \<Rightarrow> bool" where
  "isSeparator c \<longleftrightarrow> c = COMMA \<or> c = NEWLINE \<or> c = CRETURN"

definition endField :: "char \<Rightarrow> string \<Rightarrow> string list \<Rightarrow> string list list \<Rightarrow> csvState" where
  "endField c f r rows =
     (if c = COMMA then (FieldStart, [], r @ [f], rows)
      else if c = CRETURN then (AfterReturn, [], [], rows @ [r @ [f]])
      else (FieldStart, [], [], rows @ [r @ [f]]))"

definition startField :: "char \<Rightarrow> string \<Rightarrow> string list \<Rightarrow> string list list \<Rightarrow> csvState" where
  "startField c f r rows =
     (if c = DQUOTE then (Quoted, f, r, rows)
      else if isSeparator c then endField c f r rows
      else (Unquoted, f @ [c], r, rows))"

fun csvStep :: "csvState \<Rightarrow> char \<Rightarrow> csvState" where
  "csvStep (FieldStart, f, r, rows) c = startField c f r rows"
| "csvStep (AfterReturn, f, r, rows) c =
     (if c = NEWLINE then (FieldStart, f, r, rows) else startField c f r rows)"
| "csvStep (Unquoted, f, r, rows) c =
     (if isSeparator c then endField c f r rows
      else if c = DQUOTE then (Malformed, f, r, rows)
      else (Unquoted, f @ [c], r, rows))"
| "csvStep (Quoted, f, r, rows) c =
     (if c = DQUOTE then (QuoteSeen, f, r, rows) else (Quoted, f @ [c], r, rows))"
| "csvStep (QuoteSeen, f, r, rows) c =
     (if c = DQUOTE then (Quoted, f @ [DQUOTE], r, rows)
      else if isSeparator c then endField c f r rows
      else (Malformed, f, r, rows))"
| "csvStep (Malformed, f, r, rows) c = (Malformed, f, r, rows)"

fun csvFinish :: "csvState \<Rightarrow> string list list option" where
  "csvFinish (FieldStart, f, r, rows) = Some (if r = [] then rows else rows @ [r @ [f]])"
| "csvFinish (AfterReturn, f, r, rows) = Some rows"
| "csvFinish (Unquoted, f, r, rows) = Some (rows @ [r @ [f]])"
| "csvFinish (QuoteSeen, f, r, rows) = Some (rows @ [r @ [f]])"
| "csvFinish (Quoted, f, r, rows) = None"
| "csvFinish (Malformed, f, r, rows) = None"

definition readCSV :: "string \<Rightarrow> string list list option" where
  "readCSV inp = csvFinish (foldl csvStep (FieldStart, [], [], []) inp)"

text \<open>The texts that are read back as one field: those that \<open>escapeCSV\<close> wraps in quotes,
  and those without a carriage return.\<close>

definition readsBack :: "string \<Rightarrow> bool" where
  "readsBack v \<longleftrightarrow>
     CRETURN \<notin> set v \<or> COMMA \<in> set v \<or> DQUOTE \<in> set v \<or> NEWLINE \<in> set v"

text \<open>A row as \<open>generateCSV\<close> writes it, and the modes in which the reader can be after an
  escaped field \<open>v\<close>.\<close>

definition csvLine :: "string list \<Rightarrow> string" where
  "csvLine fs = join [COMMA] (map (\<lambda>v. escapeCSV (Some v)) fs)"

definition fieldRead :: "csvMode \<Rightarrow> string \<Rightarrow> bool" where
  "fieldRead m v \<longleftrightarrow> (m = FieldStart \<and> v = []) \<or> m = Unquoted \<or> m = QuoteSeen"

subsection \<open>The specification's coercion of a comment\<close>

text \<open>
  The specification's wording of the coercion of an array element (section 4.3, step 4):
  keep the recognized fields, drop everything else.  It is stated here to be compared with
  what \<open>normalizeResponse\<close> returns; the route has no such step.
\<close>

definition recognizedFields :: "string list" where
  "recognizedFields = [''username'', ''text'', ''timestamp'', ''likes'']"

fun specCoerceComment :: "json \<Rightarrow> json" where
  "specCoerceComment (JObj ps) = JObj (filter (\<lambda>p. fst p \<in> set recognizedFields) ps)"
| "specCoerceComment v = v"

subsection \<open>The specification's Comment\<close>

text \<open>
  The specification's wording of a Comment (section 3): a record whose \<open>text\<close> is a string
  and is always present, and whose \<open>username\<close>, \<open>timestamp\<close> and \<open>likes\<close> are strings when
  present.  Further fields are not held against a value here.
\<close>

definition specOptionalString :: "json option \<Rightarrow> bool" where
  "specOptionalString v = (case v of None \<Rightarrow> True | Some (JStr t) \<Rightarrow> True | Some _ \<Rightarrow> False)"

fun specIsComment :: "json \<Rightarrow> bool" where
  "specIsComment (JObj ps) =
     ((case map_of ps ''text'' of Some (JStr t) \<Rightarrow> True | _ \<Rightarrow> False) \<and>
      specOptionalString (map_of ps ''username'') \<and>
      specOptionalString (map_of ps ''timestamp'') \<and>
      specOptionalString (map_of ps ''likes''))"
| "specIsComment v = False"

subsection \<open>The specification's fallback ladder\<close>

text \<open>
  The specification's wording of the strategy (section 4.3, steps 1 to 5), stated here to be
  compared with \<open>normalizeResponse\<close>: the content of a fenced block is a candidate; the span
  from the first \<open>{\<close> to the last \<open>}\<close> of the raw text is a candidate if no fence matched or
  the fenced content failed; the whole text is parsed if neither gave a candidate; a
  candidate succeeds if it parses to an object whose \<open>comments\<close> field is an array; when
  all fail, the scraping fallback of the route takes over.
\<close>

definition specValidate :: "json \<Rightarrow> json list option" where
  "specValidate v =
     (case v of
        JObj ps \<Rightarrow> (case map_of ps ''comments'' of Some (JArr cs) \<Rightarrow> Some cs | _ \<Rightarrow> None)
      | _ \<Rightarrow> None)"

definition specCandidate :: "(string \<Rightarrow> json option) \<Rightarrow> string option \<Rightarrow> json list option" where
  "specCandidate parse candidate =
     (case candidate of
        None \<Rightarrow> None
      | Some c \<Rightarrow> (case parse c of None \<Rightarrow> None | Some v \<Rightarrow> specValidate v))"

definition specFenced :: "string \<Rightarrow> string option" where
  "specFenced raw = (case regexExec fenceRx raw of None \<Rightarrow> None | Some m \<Rightarrow> group1 m)"

definition specBraceSpan :: "string \<Rightarrow> string option" where
  "specBraceSpan raw =
     (if indexOf raw (CHR ''{'') \<noteq> - 1 \<and> lastIndexOf raw (CHR ''}'') \<noteq> - 1 \<and>
         lastIndexOf raw (CHR ''}'') > indexOf raw (CHR ''{'')
      then Some (substring raw (indexOf raw (CHR ''{'')) (lastIndexOf raw (CHR ''}'') + 1))
      else None)"

definition specLadder :: "(string \<Rightarrow> json option) \<Rightarrow> string \<Rightarrow> json" where
  "specLadder parse raw =
     (case specCandidate parse (specFenced raw) of
        Some cs \<Rightarrow> JArr cs
      | None \<Rightarrow>
          (case specCandidate parse (specBraceSpan raw) of
             Some cs \<Rightarrow> JArr cs
           | None \<Rightarrow>
               (case (if specFenced raw = None \<and> specBraceSpan raw = None
                      then specCandidate parse (Some raw) else None) of
                  Some cs \<Rightarrow> JArr cs
                | None \<Rightarrow>
                    (case commentsOf (scrapeComments raw) of
                       Inr (Some cs) \<Rightarrow> cs
                     | _ \<Rightarrow> JArr []))))"

section \<open>Batch orchestrator: the route handler \<open>POST\<close>\<close>

text \<open>
  What lies outside the route is a parameter.  A thrown error is its message.  A \<open>File\<close>
  carries its name, its declared media type and what \<open>file.arrayBuffer()\<close> settles to.  The
  environment says what \<open>pdfjsLib.getDocument\<close> makes of a buffer, what the rendering of one
  page at a scale yields (\<open>getPage\<close>, \<open>getViewport\<close>, \<open>createCanvas\<close>, \<open>render\<close> and
  \<open>toBuffer\<close> together), and what the model answers.  The answer may differ from call to
  call, so \<open>generateContent\<close> takes the number of calls made before it; its result is the
  response text after \<open>result.response.text()\<close>.

  For the loader \<open>getCreateCanvas\<close> the environment has two parts.  \<open>requireModule\<close> is what
  \<open>require\<close> does with a module name: it throws, or it returns the module, of which only the
  truth value of the property \<open>createCanvas\<close> is kept.  \<open>requireGlobal\<close> says whether the
  identifier \<open>require\<close> is bound in the global scope.  The loader does not call \<open>require\<close>
  from its own scope: it calls it from the body of a function made by \<open>new Function\<close>, and
  such a body sees the global scope only.  In a Node.js module \<open>require\<close> is a binding of the
  module's scope and not a global, so there \<open>requireGlobal\<close> is false.
\<close>

type_synonym buffer = "nat list"
type_synonym message = string

record File =
  name :: string
  type :: string
  arrayBuffer :: "message + buffer"

record Pdf =
  numPages :: nat
  pdfData :: buffer

record Env =
  requireGlobal :: bool
  requireModule :: "string \<Rightarrow> message + bool"
  getDocument :: "buffer \<Rightarrow> message + Pdf"
  renderPage :: "Pdf \<Rightarrow> nat \<Rightarrow> nat \<Rightarrow> message + buffer"
  generateContent :: "nat \<Rightarrow> buffer \<Rightarrow> string \<Rightarrow> message + string"
  jsonParse :: "string \<Rightarrow> json option"

record ProcessedComment =
  imageName :: string
  comments :: json
  rawResponse :: string

definition canvasMissing :: message where
  "canvasMissing =
     ''PDF processing is not available. Canvas module is not installed. '' @
     ''This feature requires native dependencies that may not be available in all environments.''"

definition viewportScale :: nat where
  \<comment> \<open>the literal \<open>2.0\<close> of \<open>page.getViewport({ scale: 2.0 })\<close>\<close>
  "viewportScale = 2"

text \<open>The loop \<open>for (let pageNum = 1; pageNum <= pdf.numPages; pageNum++)\<close> of
  \<open>convertPdfToImages\<close>.\<close>

function renderPages :: "Env \<Rightarrow> Pdf \<Rightarrow> nat \<Rightarrow> buffer list \<Rightarrow> message + buffer list" where
  "renderPages env pdf pageNum images =
     (if pageNum \<le> numPages pdf then
        (case renderPage env pdf pageNum viewportScale of
           Inl e \<Rightarrow> Inl e
         | Inr img \<Rightarrow> renderPages env pdf (pageNum + 1) (images @ [img]))
      else Inr images)"
  by pat_completeness auto
termination
  by (relation "measure (\<lambda>(env, pdf, pageNum, images). Suc (numPages pdf) - pageNum)") auto

declare renderPages.simps [simp del]

text \<open>
  \<open>getCreateCanvas\<close>: the truth value of what it returns.  An unbound \<open>require\<close> is a
  \<open>ReferenceError\<close> in \<open>requireFunc('canvas')\<close>; as an error of \<open>require\<close> itself it is caught
  and \<open>null\<close> is returned.
\<close>

definition getCreateCanvas :: "Env \<Rightarrow> bool" where
  "getCreateCanvas env =
     (if \<not> requireGlobal env then False
      else
        (case requireModule env ''canvas'' of
           Inl e \<Rightarrow> False
         | Inr createCanvas \<Rightarrow> createCanvas))"

definition convertPdfToImages :: "Env \<Rightarrow> buffer \<Rightarrow> message + buffer list" where
  "convertPdfToImages env pdfBuffer =
     (if \<not> getCreateCanvas env then Inl canvasMissing
      else
        (case getDocument env pdfBuffer of
           Inl e \<Rightarrow> Inl e
         | Inr pdf \<Rightarrow> renderPages env pdf 1 []))"

text \<open>A number in a template literal: its decimal digits.\<close>

function showNat :: "nat \<Rightarrow> string" where
  "showNat n =
     (if n < 10 then [''0123456789'' ! n]
      else showNat (n div 10) @ [''0123456789'' ! (n mod 10)])"
  by pat_completeness auto
termination
  by (relation "measure (\<lambda>n. n)") auto

declare showNat.simps [simp del]

text \<open>\<open>pageNumber ? `${fileName} (page ${pageNumber})` : fileName\<close>: an absent page number
  and the page number 0 are both false.\<close>

definition displayName :: "string \<Rightarrow> nat option \<Rightarrow> string" where
  "displayName fileName pageNumber =
     (case pageNumber of
        None \<Rightarrow> fileName
      | Some p \<Rightarrow> if p = 0 then fileName else fileName @ '' (page '' @ showNat p @ '')'')"

definition errorMessage :: "jsError \<Rightarrow> message" where
  "errorMessage e =
     (case e of SyntaxError \<Rightarrow> ''SyntaxError'' | TypeError \<Rightarrow> ''TypeError'' | Error m \<Rightarrow> m)"

text \<open>\<open>processImage\<close>, as call number \<open>calls\<close> of the model.\<close>

definition processImage ::
  "Env \<Rightarrow> nat \<Rightarrow> buffer \<Rightarrow> string \<Rightarrow> string \<Rightarrow> nat option \<Rightarrow> message + ProcessedComment" where
  "processImage env calls imageBuffer mimeType fileName pageNumber =
     (case generateContent env calls imageBuffer mimeType of
        Inl e \<Rightarrow> Inl e
      | Inr responseText \<Rightarrow>
          (case normalizeResponse (jsonParse env) responseText of
             Inl e \<Rightarrow> Inl (errorMessage e)
           | Inr cs \<Rightarrow>
               Inr \<lparr>imageName = displayName fileName pageNumber, comments = cs,
                    rawResponse = responseText\<rparr>))"

text \<open>
  The state of the handler: the array \<open>results\<close> and the number of model calls made.  The
  loop over the pages of a document returns the error that left it, if one did; what was
  pushed before the error stays pushed.
\<close>

type_synonym state = "ProcessedComment list \<times> nat"

function processPages ::
  "Env \<Rightarrow> File \<Rightarrow> buffer list \<Rightarrow> nat \<Rightarrow> state \<Rightarrow> message option \<times> state" where
  "processPages env file pdfImages i (results, calls) =
     (if i < length pdfImages then
        (case processImage env calls (pdfImages ! i) ''image/png'' (name file) (Some (i + 1)) of
           Inl e \<Rightarrow> (Some e, (results, Suc calls))
         | Inr result \<Rightarrow> processPages env file pdfImages (i + 1) (results @ [result], Suc calls))
      else (None, (results, calls)))"
  by pat_completeness auto
termination
  by (relation "measure (\<lambda>(env, file, pdfImages, i, st). length pdfImages - i)") auto

declare processPages.simps [simp del]

definition isPdf :: "File \<Rightarrow> bool" where
  "isPdf file \<longleftrightarrow> type file = ''application/pdf'' \<or> endsWith (map toLower (name file)) ''.pdf''"

definition errorResult :: "File \<Rightarrow> string \<Rightarrow> message \<Rightarrow> ProcessedComment" where
  "errorResult file what e =
     \<lparr>imageName = name file, comments = JArr [], rawResponse = what @ e\<rparr>"

text \<open>The body of \<open>for (const file of files)\<close>: the outer \<open>try\<close> with its \<open>catch\<close>, and for a
  PDF the inner \<open>try\<close> with its \<open>catch\<close>.\<close>

definition processFile :: "Env \<Rightarrow> File \<Rightarrow> state \<Rightarrow> state" where
  "processFile env file st =
     (case arrayBuffer file of
        Inl e \<Rightarrow> (fst st @ [errorResult file ''Error processing file: '' e], snd st)
      | Inr buffer \<Rightarrow>
          if isPdf file then
            (case convertPdfToImages env buffer of
               Inl e \<Rightarrow> (fst st @ [errorResult file ''Error processing PDF: '' e], snd st)
             | Inr pdfImages \<Rightarrow>
                 (case processPages env file pdfImages 0 st of
                    (None, st') \<Rightarrow> st'
                  | (Some e, st') \<Rightarrow>
                      (fst st' @ [errorResult file ''Error processing PDF: '' e], snd st')))
          else
            (case processImage env (snd st) buffer
                    (if type file = [] then ''image/jpeg'' else type file) (name file) None of
               Inl e \<Rightarrow> (fst st @ [errorResult file ''Error processing file: '' e], Suc (snd st))
             | Inr result \<Rightarrow> (fst st @ [result], Suc (snd st))))"

fun processFiles :: "Env \<Rightarrow> File list \<Rightarrow> state \<Rightarrow> state" where
  "processFiles env [] st = st"
| "processFiles env (file # files) st = processFiles env files (processFile env file st)"

datatype response = Results "ProcessedComment list" | ErrorResponse string nat

definition POST :: "Env \<Rightarrow> string \<Rightarrow> File list \<Rightarrow> response" where
  "POST env apiKey files =
     (if apiKey = [] then ErrorResponse ''API key is required'' 400
      else if files = [] then ErrorResponse ''No files provided'' 400
      else Results (fst (processFiles env files ([], 0))))"

text \<open>What \<open>processImage\<close> returns when the model has answered \<open>responseText\<close>.\<close>

definition okResult :: "Env \<Rightarrow> string \<Rightarrow> nat option \<Rightarrow> string \<Rightarrow> ProcessedComment" where
  "okResult env fileName pageNumber responseText =
     \<lparr>imageName = displayName fileName pageNumber,
      comments = (case normalizeResponse (jsonParse env) responseText of
                    Inr cs \<Rightarrow> cs
                  | Inl e \<Rightarrow> JArr []),
      rawResponse = responseText\<rparr>"

subsection \<open>A sample environment\<close>

text \<open>
  Concrete inputs for the examples below: an environment with a global \<open>require\<close> and the
  canvas module installed, whose second model call fails and whose other calls answer with
  an empty comment list; the same environment with \<open>require\<close> bound as a Node.js module
  binds it; a three-page document, an image, a file that cannot be read, and a document
  that \<open>getDocument\<close> rejects.
\<close>

definition demoEnv :: Env where
  \<open>demoEnv =
     \<lparr>requireGlobal = True,
      requireModule = (\<lambda>m. if m = ''canvas'' then Inr True else Inl ''Cannot find module''),
      getDocument = (\<lambda>b. if b = [] then Inl ''Invalid PDF structure''
                          else Inr \<lparr>numPages = length b, pdfData = b\<rparr>),
      renderPage = (\<lambda>pdf p scale. Inr [pdfData pdf ! (p - 1), scale]),
      generateContent = (\<lambda>c b m. if c = 1 then Inl ''fetch failed'' else Inr ''{"comments":[]}''),
      jsonParse = JSON_parse\<rparr>\<close>

definition demoNodeEnv :: Env where
  "demoNodeEnv = demoEnv\<lparr>requireGlobal := False\<rparr>"

definition demoAnswer :: "nat \<Rightarrow> string" where
  \<open>demoAnswer k = ''{"comments":[]}''\<close>

definition demoPdf :: File where
  "demoPdf = \<lparr>name = ''thread.pdf'', type = ''application/pdf'', arrayBuffer = Inr [7, 8, 9]\<rparr>"

definition demoImage :: File where
  "demoImage = \<lparr>name = ''shot.png'', type = ''image/png'', arrayBuffer = Inr [5]\<rparr>"

definition demoUnreadable :: File where
  "demoUnreadable = \<lparr>name = ''lost.png'', type = ''image/png'', arrayBuffer = Inl ''read failed''\<rparr>"

definition demoBadPdf :: File where
  "demoBadPdf = \<lparr>name = ''empty.PDF'', type = [], arrayBuffer = Inr []\<rparr>"

section \<open>Properties of the export formatter\<close>

lemma doubleQuotes_no_quote: "DQUOTE \<notin> set v \<Longrightarrow> doubleQuotes v = v"
  by (induction v) (auto simp: doubleQuotes_def)

lemma set_doubleQuotes: "set (doubleQuotes v) = set v"
  by (induction v) (auto simp: doubleQuotes_def)

lemma doubleQuotes_Cons:
  "doubleQuotes (c # v) = (if c = DQUOTE then DQUOTE # DQUOTE # doubleQuotes v else c # doubleQuotes v)"
  by (simp add: doubleQuotes_def)

lemma escapeCSV_Some:
  "escapeCSV (Some v) =
     (if v = [] then []
      else if COMMA \<in> set v \<or> DQUOTE \<in> set v \<or> NEWLINE \<in> set v
      then [DQUOTE] @ doubleQuotes v @ [DQUOTE]
      else v)"
  by (auto simp: escapeCSV_def Let_def set_doubleQuotes doubleQuotes_no_quote)

lemma read_doubleQuotes:
  "foldl csvStep (Quoted, f, r, rows) (doubleQuotes v) = (Quoted, f @ v, r, rows)"
proof (induction v arbitrary: f)
  case Nil
  show ?case by (simp add: doubleQuotes_def)
next
  case (Cons c v)
  show ?case
  proof (cases "c = DQUOTE")
    case True
    then show ?thesis using Cons [of "f @ [DQUOTE]"] by (simp add: doubleQuotes_Cons)
  next
    case False
    then show ?thesis using Cons [of "f @ [c]"] by (simp add: doubleQuotes_Cons)
  qed
qed

lemma read_plain:
  assumes "\<forall>c\<in>set v. \<not> isSeparator c \<and> c \<noteq> DQUOTE"
  shows "foldl csvStep (Unquoted, f, r, rows) v = (Unquoted, f @ v, r, rows)"
  using assms by (induction v arbitrary: f) simp_all

lemma read_field:
  assumes "readsBack v"
  shows "\<exists>m. fieldRead m v \<and>
             foldl csvStep (FieldStart, [], r, rows) (escapeCSV (Some v)) = (m, v, r, rows)"
proof (cases "COMMA \<in> set v \<or> DQUOTE \<in> set v \<or> NEWLINE \<in> set v")
  case True
  then have ne: "v \<noteq> []" by auto
  have e: "escapeCSV (Some v) = DQUOTE # doubleQuotes v @ [DQUOTE]"
    using True ne by (simp add: escapeCSV_Some)
  have "foldl csvStep (FieldStart, [], r, rows) (DQUOTE # doubleQuotes v @ [DQUOTE]) =
          csvStep (foldl csvStep (Quoted, [], r, rows) (doubleQuotes v)) DQUOTE"
    by (simp add: startField_def)
  also have "\<dots> = (QuoteSeen, v, r, rows)" by (simp add: read_doubleQuotes)
  finally show ?thesis using e by (simp add: fieldRead_def)
next
  case False
  show ?thesis
  proof (cases v)
    case Nil
    then show ?thesis by (simp add: escapeCSV_Some fieldRead_def)
  next
    case (Cons x xs)
    have p: "\<forall>c\<in>set v. \<not> isSeparator c \<and> c \<noteq> DQUOTE"
      using False assms by (auto simp: readsBack_def isSeparator_def)
    have e: "escapeCSV (Some v) = x # xs" using False Cons by (simp add: escapeCSV_Some)
    have "foldl csvStep (FieldStart, [], r, rows) (x # xs) =
            foldl csvStep (Unquoted, [x], r, rows) xs"
      using p Cons by (simp add: startField_def)
    also have "\<dots> = (Unquoted, [x] @ xs, r, rows)"
      using p Cons by (intro read_plain) simp
    finally show ?thesis using e Cons by (simp add: fieldRead_def)
  qed
qed

lemma after_field:
  assumes "fieldRead m v"
  shows "csvStep (m, v, r, rows) COMMA = (FieldStart, [], r @ [v], rows)"
    and "csvStep (m, v, r, rows) NEWLINE = (FieldStart, [], [], rows @ [r @ [v]])"
    and "r \<noteq> [] \<Longrightarrow> csvFinish (m, v, r, rows) = Some (rows @ [r @ [v]])"
  using assms
  by (auto simp: fieldRead_def startField_def endField_def isSeparator_def)

lemma read_line:
  assumes "fs \<noteq> []" "\<forall>v\<in>set fs. readsBack v"
  shows "\<exists>m. fieldRead m (last fs) \<and>
             foldl csvStep (FieldStart, [], r, rows) (csvLine fs) =
               (m, last fs, r @ butlast fs, rows)"
  using assms
proof (induction fs arbitrary: r)
  case Nil
  then show ?case by simp
next
  case (Cons v fs)
  obtain m where m: "fieldRead m v"
    "foldl csvStep (FieldStart, [], r, rows) (escapeCSV (Some v)) = (m, v, r, rows)"
    using read_field [of v r rows] Cons.prems(2) by auto
  show ?case
  proof (cases fs)
    case Nil
    then show ?thesis using m by (auto simp: csvLine_def)
  next
    case (Cons w ws)
    have l: "csvLine (v # fs) = escapeCSV (Some v) @ [COMMA] @ csvLine fs"
      using Cons by (simp add: csvLine_def)
    have "foldl csvStep (FieldStart, [], r, rows) (csvLine (v # fs)) =
            foldl csvStep (csvStep (m, v, r, rows) COMMA) (csvLine fs)"
      using m(2) by (simp add: l)
    also have "\<dots> = foldl csvStep (FieldStart, [], r @ [v], rows) (csvLine fs)"
      using after_field(1) [OF m(1)] by simp
    finally have s: "foldl csvStep (FieldStart, [], r, rows) (csvLine (v # fs)) =
        foldl csvStep (FieldStart, [], r @ [v], rows) (csvLine fs)" .
    obtain m' where "fieldRead m' (last fs)"
      "foldl csvStep (FieldStart, [], r @ [v], rows) (csvLine fs) =
         (m', last fs, (r @ [v]) @ butlast fs, rows)"
      using Cons.IH [of "r @ [v]"] Cons.prems(2) \<open>fs = w # ws\<close> by auto
    then show ?thesis using s Cons by auto
  qed
qed

lemma read_lines:
  assumes "ls \<noteq> []" "\<forall>fs\<in>set ls. fs \<noteq> [] \<and> (\<forall>v\<in>set fs. readsBack v)"
  shows "\<exists>m. fieldRead m (last (last ls)) \<and>
             foldl csvStep (FieldStart, [], [], rows) (join [NEWLINE] (map csvLine ls)) =
               (m, last (last ls), butlast (last ls), rows @ butlast ls)"
  using assms
proof (induction ls arbitrary: rows)
  case Nil
  then show ?case by simp
next
  case (Cons fs ls)
  have fs: "fs \<noteq> []" "\<forall>v\<in>set fs. readsBack v" using Cons.prems(2) by auto
  obtain m where m: "fieldRead m (last fs)"
    "foldl csvStep (FieldStart, [], [], rows) (csvLine fs) = (m, last fs, butlast fs, rows)"
    using read_line [OF fs, of "[]" rows] by auto
  show ?case
  proof (cases ls)
    case Nil
    then show ?thesis using m by auto
  next
    case (Cons gs ms)
    have l: "join [NEWLINE] (map csvLine (fs # ls)) =
        csvLine fs @ [NEWLINE] @ join [NEWLINE] (map csvLine ls)"
      using Cons by simp
    have "foldl csvStep (FieldStart, [], [], rows) (join [NEWLINE] (map csvLine (fs # ls))) =
            foldl csvStep (csvStep (m, last fs, butlast fs, rows) NEWLINE)
              (join [NEWLINE] (map csvLine ls))"
      by (simp only: l foldl_append m(2) foldl_Cons foldl_Nil)
    also have "\<dots> = foldl csvStep (FieldStart, [], [], rows @ [butlast fs @ [last fs]])
              (join [NEWLINE] (map csvLine ls))"
      using after_field(2) [OF m(1)] by simp
    also have "butlast fs @ [last fs] = fs" using fs(1) by simp
    finally have s: "foldl csvStep (FieldStart, [], [], rows) (join [NEWLINE] (map csvLine (fs # ls))) =
        foldl csvStep (FieldStart, [], [], rows @ [fs]) (join [NEWLINE] (map csvLine ls))" .
    obtain m' where "fieldRead m' (last (last ls))"
      "foldl csvStep (FieldStart, [], [], rows @ [fs]) (join [NEWLINE] (map csvLine ls)) =
         (m', last (last ls), butlast (last ls), (rows @ [fs]) @ butlast ls)"
      using Cons.IH [of "rows @ [fs]"] Cons.prems(2) \<open>ls = gs # ms\<close> by auto
    then show ?thesis using s Cons by auto
  qed
qed

lemma readCSV_lines:
  assumes "ls \<noteq> []" "\<forall>fs\<in>set ls. 2 \<le> length fs \<and> (\<forall>v\<in>set fs. readsBack v)"
  shows "readCSV (join [NEWLINE] (map csvLine ls)) = Some ls"
proof -
  have a: "\<forall>fs\<in>set ls. fs \<noteq> [] \<and> (\<forall>v\<in>set fs. readsBack v)" using assms(2) by auto
  obtain m where m: "fieldRead m (last (last ls))"
    "foldl csvStep (FieldStart, [], [], []) (join [NEWLINE] (map csvLine ls)) =
       (m, last (last ls), butlast (last ls), [] @ butlast ls)"
    using read_lines [OF assms(1) a, of "[]"] by auto
  have l: "2 \<le> length (last ls)" using assms by simp
  then have ne: "butlast (last ls) \<noteq> []" "last ls \<noteq> []" by (auto simp: butlast_conv_take)
  have "readCSV (join [NEWLINE] (map csvLine ls)) =
          Some (butlast ls @ [butlast (last ls) @ [last (last ls)]])"
    using m(2) after_field(3) [OF m(1) ne(1)] by (simp add: readCSV_def)
  then show ?thesis using ne(2) assms(1) by simp
qed

lemma headers_line: "join [COMMA] headers = csvLine headers"
  by (simp add: headers_def csvLine_def escapeCSV_Some)

lemma csvRow_line: "join [COMMA] (csvRow c) = csvLine (commentFields c)"
proof -
  have "escapeCSV None = escapeCSV (Some [])" by (simp add: escapeCSV_def)
  then have "csvRow c = map (\<lambda>v. escapeCSV (Some v)) (commentFields c)"
    by (simp add: csvRow_def commentFields_def split: option.splits)
  then show ?thesis by (simp add: csvLine_def)
qed

lemma generateCSV_lines:
  "generateCSV flat = join [NEWLINE] (map csvLine (headers # map commentFields flat))"
  by (simp add: generateCSV_def headers_line csvRow_line comp_def)

lemma readCSV_generateCSV:
  assumes "\<forall>c\<in>set flat. \<forall>v\<in>set (commentFields c). readsBack v"
  shows "readCSV (generateCSV flat) = Some (headers # map commentFields flat)"
proof -
  have h: "2 \<le> length headers \<and> (\<forall>v\<in>set headers. readsBack v)"
    by (simp add: headers_def readsBack_def)
  have "\<forall>fs\<in>set (headers # map commentFields flat).
          2 \<le> length fs \<and> (\<forall>v\<in>set fs. readsBack v)"
  proof
    fix fs assume "fs \<in> set (headers # map commentFields flat)"
    then consider "fs = headers" | c where "c \<in> set flat" "fs = commentFields c" by auto
    then show "2 \<le> length fs \<and> (\<forall>v\<in>set fs. readsBack v)"
    proof cases
      case 1
      then show ?thesis using h by simp
    next
      case 2
      have "length (commentFields c) = 5" by (simp add: commentFields_def)
      then show ?thesis using 2 assms by simp
    qed
  qed
  then show ?thesis
    unfolding generateCSV_lines by (intro readCSV_lines) simp
qed

text \<open>
  Claim C9, as the claim states it, fails: a text with a carriage return and no comma, quote
  or line feed is written without quotes, and a reader that follows RFC 4180 ends the
  record at the carriage return.  Here the text \<open>a\<close>, carriage return, \<open>b\<close> of one comment
  comes back as the end of one record and the start of another.
\<close>

theorem carriage_return_counterexample:
  \<open>escapeCSV (Some [CHR ''a'', CRETURN, CHR ''b'']) = [CHR ''a'', CRETURN, CHR ''b''] \<and>
   commentFields \<lparr>c_imageName = ''p.png'', c_username = None,
                  c_text = [CHR ''a'', CRETURN, CHR ''b''], c_timestamp = None, c_likes = None\<rparr> =
     [''p.png'', [], [CHR ''a'', CRETURN, CHR ''b''], [], []] \<and>
   readCSV (generateCSV [\<lparr>c_imageName = ''p.png'', c_username = None,
                           c_text = [CHR ''a'', CRETURN, CHR ''b''], c_timestamp = None,
                           c_likes = None\<rparr>]) =
     Some [[''Image Name'', ''Username'', ''Comment Text'', ''Timestamp'', ''Likes''],
           [''p.png'', [], ''a''], [''b'', [], []]]\<close>
  by code_simp

text \<open>
  Claim C9, amended.  \<open>escapeCSV\<close> gives the empty field for an absent or empty value; a
  non-empty value is wrapped in quotes, with its quotes doubled, exactly when it holds a
  comma, a quote or a line feed, and is written unchanged otherwise; the text
  \<open>He said "hi", then left\<close> becomes \<open>"He said ""hi"", then left"\<close>.  \<open>generateCSV\<close> writes the
  header row and then one row per comment, the five fields of a row escaped and joined by
  commas, the rows joined by line feeds.  Reading an escaped field back returns the
  original text, and reading the whole export back returns the header and, for every
  comment, its five texts, provided every text with a carriage return also holds a comma,
  a quote or a line feed.
\<close>

theorem export_quoting_roundtrip:
  \<open>escapeCSV None = [] \<and> escapeCSV (Some []) = [] \<and>
   (v \<noteq> [] \<longrightarrow>
      escapeCSV (Some v) =
        (if COMMA \<in> set v \<or> DQUOTE \<in> set v \<or> NEWLINE \<in> set v
         then [DQUOTE] @ doubleQuotes v @ [DQUOTE] else v)) \<and>
   escapeCSV (Some ''He said "hi", then left'') = ''"He said ""hi"", then left"'' \<and>
   generateCSV flat =
     join [NEWLINE]
       (join [COMMA] headers #
        map (\<lambda>c. join [COMMA] (map (\<lambda>v. escapeCSV (Some v)) (commentFields c))) flat) \<and>
   (readsBack v \<and> readsBack w \<longrightarrow>
      readCSV (escapeCSV (Some v) @ [COMMA] @ escapeCSV (Some w)) = Some [[v, w]]) \<and>
   ((\<forall>c\<in>set flat. \<forall>v\<in>set (commentFields c). readsBack v) \<longrightarrow>
      readCSV (generateCSV flat) = Some (headers # map commentFields flat))\<close>
proof -
  have a: "escapeCSV None = []" by (simp add: escapeCSV_def)
  have b: "escapeCSV (Some []) = []" by (simp add: escapeCSV_def)
  have c: "v \<noteq> [] \<longrightarrow>
      escapeCSV (Some v) =
        (if COMMA \<in> set v \<or> DQUOTE \<in> set v \<or> NEWLINE \<in> set v
         then [DQUOTE] @ doubleQuotes v @ [DQUOTE] else v)"
    by (simp add: escapeCSV_Some)
  have d: \<open>escapeCSV (Some ''He said "hi", then left'') = ''"He said ""hi"", then left"''\<close>
    by (simp add: escapeCSV_Some doubleQuotes_def)
  have e: "generateCSV flat =
     join [NEWLINE]
       (join [COMMA] headers #
        map (\<lambda>c. join [COMMA] (map (\<lambda>v. escapeCSV (Some v)) (commentFields c))) flat)"
    by (simp add: generateCSV_lines headers_line csvLine_def comp_def)
  have f: "readCSV (escapeCSV (Some v) @ [COMMA] @ escapeCSV (Some w)) = Some [[v, w]]"
    if "readsBack v \<and> readsBack w"
  proof -
    have "readCSV (join [NEWLINE] (map csvLine [[v, w]])) = Some [[v, w]]"
      using that by (intro readCSV_lines) simp_all
    then show ?thesis by (simp add: csvLine_def)
  qed
  have g: "readCSV (generateCSV flat) = Some (headers # map commentFields flat)"
    if "\<forall>c\<in>set flat. \<forall>v\<in>set (commentFields c). readsBack v"
    using that by (rule readCSV_generateCSV)
  show ?thesis using a b c d e f g by blast
qed

theorem export_quoting_roundtrip_witness:
  \<open>escapeCSV (Some ''a,"b"'') = ''"a,""b"""'' \<and>
   readCSV (''"a,""b"""'' @ [COMMA] @ ''x'') = Some [[''a,"b"'', ''x'']] \<and>
   generateCSV [\<lparr>c_imageName = ''p.png'', c_username = None,
                  c_text = ''He said "hi", then left'', c_timestamp = Some ''2h'',
                  c_likes = None\<rparr>] =
     ''Image Name,Username,Comment Text,Timestamp,Likes\<newline>p.png,,"He said ""hi"", then left",2h,'' \<and>
   readCSV ''Image Name,Username,Comment Text,Timestamp,Likes\<newline>p.png,,"He said ""hi"", then left",2h,'' =
     Some [[''Image Name'', ''Username'', ''Comment Text'', ''Timestamp'', ''Likes''],
           [''p.png'', [], ''He said "hi", then left'', ''2h'', []]]\<close>
proof -
  let ?c = \<open>\<lparr>c_imageName = ''p.png'', c_username = None,
              c_text = ''He said "hi", then left'', c_timestamp = Some ''2h'',
              c_likes = None\<rparr>\<close>
  have e: \<open>escapeCSV (Some ''a,"b"'') = ''"a,""b"""''\<close>
    using export_quoting_roundtrip [of \<open>''a,"b"''\<close>] by (simp add: doubleQuotes_def)
  have x: \<open>escapeCSV (Some ''x'') = ''x''\<close>
    using export_quoting_roundtrip [of \<open>''x''\<close>] by simp
  have rb: \<open>readsBack ''a,"b"'' \<and> readsBack ''x''\<close> by (simp add: readsBack_def)
  have \<open>readCSV (escapeCSV (Some ''a,"b"'') @ [COMMA] @ escapeCSV (Some ''x'')) =
          Some [[''a,"b"'', ''x'']]\<close>
    using export_quoting_roundtrip [of \<open>''a,"b"''\<close> _ \<open>''x''\<close>] rb by blast
  then have w1: \<open>readCSV (''"a,""b"""'' @ [COMMA] @ ''x'') = Some [[''a,"b"'', ''x'']]\<close>
    by (simp only: e x)
  have g: \<open>generateCSV [?c] =
     ''Image Name,Username,Comment Text,Timestamp,Likes\<newline>p.png,,"He said ""hi"", then left",2h,''\<close>
    by code_simp
  have s: "\<forall>c\<in>set [?c]. \<forall>v\<in>set (commentFields c). readsBack v"
    by (simp add: commentFields_def readsBack_def)
  have "readCSV (generateCSV [?c]) = Some (headers # map commentFields [?c])"
    using export_quoting_roundtrip [of _ "[?c]"] s by blast
  then have w2: \<open>readCSV ''Image Name,Username,Comment Text,Timestamp,Likes\<newline>p.png,,"He said ""hi"", then left",2h,'' =
     Some [[''Image Name'', ''Username'', ''Comment Text'', ''Timestamp'', ''Likes''],
           [''p.png'', [], ''He said "hi", then left'', ''2h'', []]]\<close>
    by (simp only: g) (simp add: headers_def commentFields_def)
  show ?thesis using e w1 g w2 by (simp only: simp_thms)
qed

section \<open>Properties of the JSON reader\<close>

text \<open>Every parse consumes input, and the bound on the depth of the calls is enough: a larger
  bound gives the same result, and whatever \<open>parseValue\<close> returns under some bound it returns
  under the bound of \<open>JSON_parse\<close>.\<close>

lemma skipWs_length: "length (skipWs s) \<le> length s"
  by (simp add: skipWs_def length_dropWhile_le)

lemma skipWs_Cons_length: "skipWs s = c # cs \<Longrightarrow> length cs < length s"
  using skipWs_length [of s] by simp

lemma parseChars_length: "parseChars cs = Some (str, r) \<Longrightarrow> length r < length cs"
proof (induction cs arbitrary: str r rule: parseChars.induct)
  case 1
  then show ?case by simp
next
  case (2 c cs)
  show ?case
  proof (cases "c = DQUOTE")
    case True
    then show ?thesis using "2.prems" by auto
  next
    case nq: False
    show ?thesis
    proof (cases "c = CHR 0x5C")
      case nb: False
      show ?thesis
      proof (cases "(of_char c :: nat) < 32")
        case True
        then show ?thesis using "2.prems" nq nb by simp
      next
        case False
        then obtain str' where "parseChars cs = Some (str', r)"
          using "2.prems" nq nb by auto
        then have "length r < length cs" using "2.IH"(3) [OF nq nb False] by blast
        then show ?thesis by simp
      qed
    next
      case bs: True
      then obtain e r0 where cs: "cs = e # r0"
        using "2.prems" nq by (cases cs) auto
      show ?thesis
      proof (cases "e = CHR ''u''")
        case False
        then obtain x str' where x: "escapeChar e = Some x" and "parseChars r0 = Some (str', r)"
          using "2.prems" nq bs cs by (auto split: option.splits)
        then have "length r < length r0" using "2.IH"(2) [OF nq bs cs False x] by blast
        then show ?thesis using cs by simp
      next
        case True
        then obtain h1 h2 h3 h4 r' where r0: "r0 = h1 # h2 # h3 # h4 # r'"
          using "2.prems" nq bs cs by (auto split: list.splits)
        then obtain x str' where x: "unicodeEscape h1 h2 h3 h4 = Some x" and "parseChars r' = Some (str', r)"
          using "2.prems" nq bs cs True by (auto split: option.splits)
        then have "length r < length r'" using "2.IH"(1) [OF nq bs cs True] r0 by simp
        then show ?thesis using cs r0 by simp
      qed
    qed
  qed
qed

lemma numInt_length: "numInt s = Some (i, r) \<Longrightarrow> length r < length s"
  using length_dropWhile_le [of isDigit "tl s"]
  by (cases s) (auto simp: numInt_def split: if_splits)

lemma numFrac_length: "numFrac s = Some (f, r) \<Longrightarrow> length r \<le> length s"
  using length_dropWhile_le [of isDigit "tl s"]
  by (cases s) (auto simp: numFrac_def split: if_splits)

lemma numExp_length: "numExp s = Some (e, r) \<Longrightarrow> length r \<le> length s"
proof (cases s)
  case Nil
  assume "numExp s = Some (e, r)"
  then show ?thesis using Nil by (simp add: numExp_def)
next
  case (Cons x xs)
  assume a: "numExp s = Some (e, r)"
  show ?thesis
  proof (cases "x = CHR ''e'' \<or> x = CHR ''E''")
    case False
    then show ?thesis using a Cons by (auto simp: numExp_def)
  next
    case True
    then obtain k where "r = dropWhile isDigit (drop k xs)"
      using a Cons by (auto simp: numExp_def Let_def split: if_splits)
    then have "length r \<le> length xs"
      using length_dropWhile_le [of isDigit "drop k xs"] by simp
    then show ?thesis using Cons by simp
  qed
qed

lemma parseNumber_length: "parseNumber s = Some (l, r) \<Longrightarrow> length r < length s"
proof -
  assume a: "parseNumber s = Some (l, r)"
  then obtain k i r1 f r2 e where
    "numInt (drop k s) = Some (i, r1)" "numFrac r1 = Some (f, r2)" "numExp r2 = Some (e, r)"
    by (auto simp: parseNumber_def Let_def split: option.splits)
  then have "length r1 < length (drop k s)" "length r2 \<le> length r1" "length r \<le> length r2"
    using numInt_length numFrac_length numExp_length by blast+
  then show ?thesis by simp
qed

lemma parse_length:
  "(\<forall>s v r. parseValue n s = Some (v, r) \<longrightarrow> length r < length s) \<and>
   (\<forall>acc s v r. parseElements n acc s = Some (v, r) \<longrightarrow> length r < length s) \<and>
   (\<forall>acc s v r. parseMembers n acc s = Some (v, r) \<longrightarrow> length r < length s)"
proof (induction n)
  case 0
  show ?case by simp
next
  case (Suc n)
  have V: "\<And>s v r. parseValue n s = Some (v, r) \<Longrightarrow> length r < length s"
    and E: "\<And>acc s v r. parseElements n acc s = Some (v, r) \<Longrightarrow> length r < length s"
    and M: "\<And>acc s v r. parseMembers n acc s = Some (v, r) \<Longrightarrow> length r < length s"
    using Suc.IH by blast+
  have v: "length r < length s" if a: "parseValue (Suc n) s = Some (v, r)" for s v r
  proof -
    obtain c cs where sk: "skipWs s = c # cs" using a by (cases "skipWs s") auto
    have l: "length cs < length s" using sk by (rule skipWs_Cons_length)
    show ?thesis
    proof (cases "c = CHR ''{''")
      case True
      then obtain d r0 where d: "skipWs cs = d # r0" using a sk by (cases "skipWs cs") auto
      show ?thesis
      proof (cases "d = CHR ''}''")
        case True
        then have "r = r0" using a sk d \<open>c = CHR ''{''\<close> by simp
        then show ?thesis using skipWs_Cons_length [OF d] l by simp
      next
        case False
        then have "parseMembers n [] cs = Some (v, r)" using a sk d \<open>c = CHR ''{''\<close> by simp
        then show ?thesis using M l by fastforce
      qed
    next
      case no: False
      show ?thesis
      proof (cases "c = CHR ''[''")
        case True
        then obtain d r0 where d: "skipWs cs = d # r0" using a sk no by (cases "skipWs cs") auto
        show ?thesis
        proof (cases "d = CHR '']''")
          case True
          then have "r = r0" using a sk d \<open>c = CHR ''[''\<close> by simp
          then show ?thesis using skipWs_Cons_length [OF d] l by simp
        next
          case False
          then have "parseElements n [] cs = Some (v, r)" using a sk d \<open>c = CHR ''[''\<close> by simp
          then show ?thesis using E l by fastforce
        qed
      next
        case na: False
        show ?thesis
        proof (cases "c = DQUOTE")
          case True
          then obtain str where "parseChars cs = Some (str, r)" using a sk no na by auto
          then show ?thesis using parseChars_length l by fastforce
        next
          case nq: False
          have b: "(if take 4 (c # cs) = ''true'' then Some (JBool True, drop 4 (c # cs))
                    else if take 5 (c # cs) = ''false'' then Some (JBool False, drop 5 (c # cs))
                    else if take 4 (c # cs) = ''null'' then Some (JNull, drop 4 (c # cs))
                    else map_option (\<lambda>(lexeme, r). (JNum lexeme, r)) (parseNumber (c # cs))) = Some (v, r)"
            using a sk no na nq by simp
          have "length r < length (c # cs)"
          proof (cases "take 4 (c # cs) = ''true''")
            case True
            then have "r = drop 4 (c # cs)" using b by simp
            then show ?thesis by simp
          next
            case nt: False
            show ?thesis
            proof (cases "take 5 (c # cs) = ''false''")
              case True
              then have "r = drop 5 (c # cs)" using b nt by simp
              then show ?thesis by simp
            next
              case nf: False
              show ?thesis
              proof (cases "take 4 (c # cs) = ''null''")
                case True
                then have "r = drop 4 (c # cs)" using b nt nf by simp
                then show ?thesis by simp
              next
                case False
                then obtain lx where "parseNumber (c # cs) = Some (lx, r)" using b nt nf by auto
                then show ?thesis by (rule parseNumber_length)
              qed
            qed
          qed
          then show ?thesis using l by simp
        qed
      qed
    qed
  qed
  have e: "length r < length s" if a: "parseElements (Suc n) acc s = Some (v, r)" for acc s v r
  proof -
    obtain v1 r1 where p: "parseValue n s = Some (v1, r1)"
      using a by (cases "parseValue n s") auto
    have l1: "length r1 < length s" using p by (rule V)
    obtain d r2 where d: "skipWs r1 = d # r2" using a p by (cases "skipWs r1") auto
    have l2: "length r2 < length r1" using d by (rule skipWs_Cons_length)
    show ?thesis
    proof (cases "d = COMMA")
      case True
      then have "parseElements n (acc @ [v1]) r2 = Some (v, r)" using a p d by simp
      then have "length r < length r2" by (rule E)
      then show ?thesis using l1 l2 by simp
    next
      case False
      then have "r = r2" using a p d by (simp split: if_splits)
      then show ?thesis using l1 l2 by simp
    qed
  qed
  have m: "length r < length s" if a: "parseMembers (Suc n) acc s = Some (v, r)" for acc s v r
  proof -
    obtain q r0 where sk: "skipWs s = q # r0" using a by (cases "skipWs s") auto
    have l0: "length r0 < length s" using sk by (rule skipWs_Cons_length)
    have q: "q = DQUOTE" using a sk by (simp split: if_splits)
    obtain key r1 where k: "parseChars r0 = Some (key, r1)"
      using a sk q by (cases "parseChars r0") auto
    have l1: "length r1 < length r0" using k by (rule parseChars_length)
    obtain colon r2 where c: "skipWs r1 = colon # r2" using a sk q k by (cases "skipWs r1") auto
    have l2: "length r2 < length r1" using c by (rule skipWs_Cons_length)
    have cl: "colon = CHR '':''" using a sk q k c by (simp split: if_splits)
    obtain v1 r3 where p: "parseValue n r2 = Some (v1, r3)"
      using a sk q k c cl by (cases "parseValue n r2") auto
    have l3: "length r3 < length r2" using p by (rule V)
    obtain d r4 where d: "skipWs r3 = d # r4" using a sk q k c cl p by (cases "skipWs r3") auto
    have l4: "length r4 < length r3" using d by (rule skipWs_Cons_length)
    show ?thesis
    proof (cases "d = COMMA")
      case True
      then have "parseMembers n (setProp key v1 acc) r4 = Some (v, r)"
        using a sk q k c cl p d by simp
      then have "length r < length r4" by (rule M)
      then show ?thesis using l0 l1 l2 l3 l4 by simp
    next
      case False
      then have "r = r4" using a sk q k c cl p d by (simp split: if_splits)
      then show ?thesis using l0 l1 l2 l3 l4 by simp
    qed
  qed
  show ?case using v e m by blast
qed

lemma parse_fuel:
  "(\<forall>s m. 2 * length s < n \<and> 2 * length s < m \<longrightarrow> parseValue n s = parseValue m s) \<and>
   (\<forall>acc s m. 2 * length s + 1 < n \<and> 2 * length s + 1 < m \<longrightarrow>
      parseElements n acc s = parseElements m acc s) \<and>
   (\<forall>acc s m. 2 * length s + 1 < n \<and> 2 * length s + 1 < m \<longrightarrow>
      parseMembers n acc s = parseMembers m acc s)"
proof (induction n)
  case 0
  show ?case by simp
next
  case (Suc n)
  have V: "\<And>s m. 2 * length s < n \<Longrightarrow> 2 * length s < m \<Longrightarrow> parseValue n s = parseValue m s"
    and E: "\<And>acc s m. 2 * length s + 1 < n \<Longrightarrow> 2 * length s + 1 < m \<Longrightarrow>
               parseElements n acc s = parseElements m acc s"
    and M: "\<And>acc s m. 2 * length s + 1 < n \<Longrightarrow> 2 * length s + 1 < m \<Longrightarrow>
               parseMembers n acc s = parseMembers m acc s"
    using Suc.IH by blast+
  have v: "parseValue (Suc n) s = parseValue m s"
    if n: "2 * length s < Suc n" and m: "2 * length s < m" for s m
  proof -
    obtain m' where m': "m = Suc m'" using m by (cases m) auto
    show ?thesis
    proof (cases "skipWs s")
      case Nil
      then show ?thesis by (simp add: m')
    next
      case (Cons c cs)
      have l: "length cs < length s" using Cons by (rule skipWs_Cons_length)
      have eM: "parseMembers n [] cs = parseMembers m' [] cs"
        using l n m m' by (intro M) auto
      have eE: "parseElements n [] cs = parseElements m' [] cs"
        using l n m m' by (intro E) auto
      show ?thesis
      proof (cases "skipWs cs")
        case Nil
        then show ?thesis using Cons by (simp add: m')
      next
        case c2: (Cons d r)
        show ?thesis using Cons c2 eM eE by (simp add: m')
      qed
    qed
  qed
  have e: "parseElements (Suc n) acc s = parseElements m acc s"
    if n: "2 * length s + 1 < Suc n" and m: "2 * length s + 1 < m" for acc s m
  proof -
    obtain m' where m': "m = Suc m'" using m by (cases m) auto
    have eV: "parseValue n s = parseValue m' s" using n m m' by (intro V) auto
    show ?thesis
    proof (cases "parseValue m' s")
      case None
      then show ?thesis using eV by (simp add: m')
    next
      case (Some x)
      obtain v r where x: "x = (v, r)" by (cases x)
      have l1: "length r < length s" using parse_length [of m'] Some x by blast
      show ?thesis
      proof (cases "skipWs r")
        case Nil
        then show ?thesis using eV Some x by (simp add: m')
      next
        case (Cons d r')
        have l2: "length r' < length r" using Cons by (rule skipWs_Cons_length)
        have "parseElements n (acc @ [v]) r' = parseElements m' (acc @ [v]) r'"
          using l1 l2 n m m' by (intro E) auto
        then show ?thesis using eV Some x Cons by (simp add: m')
      qed
    qed
  qed
  have mm: "parseMembers (Suc n) acc s = parseMembers m acc s"
    if n: "2 * length s + 1 < Suc n" and m: "2 * length s + 1 < m" for acc s m
  proof -
    obtain m' where m': "m = Suc m'" using m by (cases m) auto
    show ?thesis
    proof (cases "skipWs s")
      case Nil
      then show ?thesis by (simp add: m')
    next
      case (Cons q r0)
      have l0: "length r0 < length s" using Cons by (rule skipWs_Cons_length)
      show ?thesis
      proof (cases "parseChars r0")
        case None
        then show ?thesis using Cons by (simp add: m')
      next
        case (Some y)
        obtain key r1 where y: "y = (key, r1)" by (cases y)
        have l1: "length r1 < length r0" using Some y parseChars_length by blast
        show ?thesis
        proof (cases "skipWs r1")
          case Nil
          then show ?thesis using Cons Some y by (simp add: m')
        next
          case c2: (Cons colon r2)
          have l2: "length r2 < length r1" using c2 by (rule skipWs_Cons_length)
          have eV: "parseValue n r2 = parseValue m' r2"
            using l0 l1 l2 n m m' by (intro V) auto
          show ?thesis
          proof (cases "parseValue m' r2")
            case None
            then show ?thesis using Cons Some y c2 eV by (simp add: m')
          next
            case s2: (Some x)
            obtain v r3 where x: "x = (v, r3)" by (cases x)
            have l3: "length r3 < length r2" using parse_length [of m'] s2 x by blast
            show ?thesis
            proof (cases "skipWs r3")
              case Nil
              then show ?thesis using Cons Some y c2 eV s2 x by (simp add: m')
            next
              case c4: (Cons d r4)
              have l4: "length r4 < length r3" using c4 by (rule skipWs_Cons_length)
              have "parseMembers n (setProp key v acc) r4 = parseMembers m' (setProp key v acc) r4"
                using l0 l1 l2 l3 l4 n m m' by (intro M) auto
              then show ?thesis using Cons Some y c2 eV s2 x c4 by (simp add: m')
            qed
          qed
        qed
      qed
    qed
  qed
  show ?case using v e mm by blast
qed

lemma parse_mono:
  "(\<forall>s x. parseValue n s = Some x \<longrightarrow> parseValue (Suc n) s = Some x) \<and>
   (\<forall>acc s x. parseElements n acc s = Some x \<longrightarrow> parseElements (Suc n) acc s = Some x) \<and>
   (\<forall>acc s x. parseMembers n acc s = Some x \<longrightarrow> parseMembers (Suc n) acc s = Some x)"
proof (induction n)
  case 0
  show ?case by simp
next
  case (Suc n)
  note rec = parseValue.simps parseElements.simps parseMembers.simps
  have V: "\<And>s x. parseValue n s = Some x \<Longrightarrow> parseValue (Suc n) s = Some x"
    and E: "\<And>acc s x. parseElements n acc s = Some x \<Longrightarrow> parseElements (Suc n) acc s = Some x"
    and M: "\<And>acc s x. parseMembers n acc s = Some x \<Longrightarrow> parseMembers (Suc n) acc s = Some x"
    using Suc.IH by blast+
  have v: "parseValue (Suc (Suc n)) s = Some x" if a: "parseValue (Suc n) s = Some x" for s x
  proof -
    obtain c cs where sk: "skipWs s = c # cs" using a by (cases "skipWs s") auto
    show ?thesis
    proof (cases "c = CHR ''{''")
      case True
      then obtain d r0 where d: "skipWs cs = d # r0" using a sk by (cases "skipWs cs") auto
      show ?thesis
      proof (cases "d = CHR ''}''")
        case True
        then show ?thesis using a sk d \<open>c = CHR ''{''\<close> by simp
      next
        case False
        then have "parseMembers n [] cs = Some x" using a sk d \<open>c = CHR ''{''\<close> by simp
        then have "parseMembers (Suc n) [] cs = Some x" by (rule M)
        then show ?thesis using sk d False \<open>c = CHR ''{''\<close>
          by (subst parseValue.simps(2)) (simp del: rec)
      qed
    next
      case no: False
      show ?thesis
      proof (cases "c = CHR ''[''")
        case True
        then obtain d r0 where d: "skipWs cs = d # r0" using a sk no by (cases "skipWs cs") auto
        show ?thesis
        proof (cases "d = CHR '']''")
          case True
          then show ?thesis using a sk d no \<open>c = CHR ''[''\<close> by simp
        next
          case False
          then have "parseElements n [] cs = Some x" using a sk d no \<open>c = CHR ''[''\<close> by simp
          then have "parseElements (Suc n) [] cs = Some x" by (rule E)
          then show ?thesis using sk d False no \<open>c = CHR ''[''\<close>
            by (subst parseValue.simps(2)) (simp del: rec)
        qed
      next
        case False
        have "parseValue (Suc (Suc n)) s = parseValue (Suc n) s"
          using sk no False by (simp only: parseValue.simps list.case if_False)
        then show ?thesis using a by (simp only:)
      qed
    qed
  qed
  have e: "parseElements (Suc (Suc n)) acc s = Some x"
    if a: "parseElements (Suc n) acc s = Some x" for acc s x
  proof -
    obtain v1 r1 where p: "parseValue n s = Some (v1, r1)"
      using a by (cases "parseValue n s") auto
    have p': "parseValue (Suc n) s = Some (v1, r1)" using p by (rule V)
    obtain d r2 where d: "skipWs r1 = d # r2" using a p by (cases "skipWs r1") auto
    show ?thesis
    proof (cases "d = COMMA")
      case True
      then have "parseElements n (acc @ [v1]) r2 = Some x" using a p d by simp
      then have "parseElements (Suc n) (acc @ [v1]) r2 = Some x" by (rule E)
      then show ?thesis using p' d True
        by (subst parseElements.simps(2)) (simp del: rec)
    next
      case False
      then have "(if d = CHR '']'' then Some (JArr (acc @ [v1]), r2) else None) = Some x"
        using a p d by simp
      then show ?thesis using p' d False
        by (subst parseElements.simps(2)) (simp del: rec)
    qed
  qed
  have m: "parseMembers (Suc (Suc n)) acc s = Some x"
    if a: "parseMembers (Suc n) acc s = Some x" for acc s x
  proof -
    obtain q r0 where sk: "skipWs s = q # r0" using a by (cases "skipWs s") auto
    have q: "q = DQUOTE" using a sk by (simp split: if_splits)
    obtain key r1 where k: "parseChars r0 = Some (key, r1)"
      using a sk q by (cases "parseChars r0") auto
    obtain colon r2 where c: "skipWs r1 = colon # r2" using a sk q k by (cases "skipWs r1") auto
    have cl: "colon = CHR '':''" using a sk q k c by (simp split: if_splits)
    obtain v1 r3 where p: "parseValue n r2 = Some (v1, r3)"
      using a sk q k c cl by (cases "parseValue n r2") auto
    have p': "parseValue (Suc n) r2 = Some (v1, r3)" using p by (rule V)
    obtain d r4 where d: "skipWs r3 = d # r4" using a sk q k c cl p by (cases "skipWs r3") auto
    show ?thesis
    proof (cases "d = COMMA")
      case True
      then have "parseMembers n (setProp key v1 acc) r4 = Some x"
        using a sk q k c cl p d by simp
      then have "parseMembers (Suc n) (setProp key v1 acc) r4 = Some x" by (rule M)
      then show ?thesis using sk q k c cl p' d True
        by (subst parseMembers.simps(2)) (simp del: rec)
    next
      case False
      then have "(if d = CHR ''}'' then Some (JObj (setProp key v1 acc), r4) else None) = Some x"
        using a sk q k c cl p d by simp
      then show ?thesis using sk q k c cl p' d False
        by (subst parseMembers.simps(2)) (simp del: rec)
    qed
  qed
  show ?case using v e m by blast
qed

lemma parseValue_fuel:
  "2 * length s < n \<Longrightarrow> 2 * length s < m \<Longrightarrow> parseValue n s = parseValue m s"
  using parse_fuel [of n] by blast

lemma parseValue_mono: "parseValue n s = Some x \<Longrightarrow> parseValue (n + k) s = Some x"
proof (induction k)
  case 0
  then show ?case by simp
next
  case (Suc k)
  then have "parseValue (n + k) s = Some x" by blast
  then have "parseValue (Suc (n + k)) s = Some x" using parse_mono [of "n + k"] by blast
  then show ?case by (simp only: add_Suc_right)
qed

lemma parseValue_bound_enough:
  "parseValue n s = Some x \<Longrightarrow> parseValue (Suc (2 * length s)) s = Some x"
proof -
  assume a: "parseValue n s = Some x"
  have "parseValue (n + Suc (2 * length s)) s = Some x" using a by (rule parseValue_mono)
  moreover have "parseValue (n + Suc (2 * length s)) s = parseValue (Suc (2 * length s)) s"
    by (rule parseValue_fuel) simp_all
  ultimately show ?thesis by (simp only:)
qed

lemma JSON_parse_bound_enough:
  "parseValue n s = Some (v, r) \<Longrightarrow> skipWs r = [] \<Longrightarrow> JSON_parse s = Some v"
proof -
  assume a: "parseValue n s = Some (v, r)" and b: "skipWs r = []"
  have "parseValue (Suc (2 * length s)) s = Some (v, r)" using a by (rule parseValue_bound_enough)
  then show ?thesis using b by (simp add: JSON_parse_def)
qed

section \<open>Properties of the regular expressions\<close>

lemma starGreedy_length:
  assumes m: "\<forall>c s k x. m c s k = Some x \<longrightarrow> (\<exists>c' s'. length s' \<le> length s \<and> k c' s' = Some x)"
  shows "starGreedy m n c s k = Some x \<Longrightarrow> \<exists>c' s'. length s' \<le> length s \<and> k c' s' = Some x"
proof (induction n arbitrary: c s)
  case 0
  then show ?case by auto
next
  case (Suc n)
  show ?case
  proof (cases "m c s (\<lambda>c' s'. if length s' < length s then starGreedy m n c' s' k else None)")
    case None
    then show ?thesis using Suc.prems by auto
  next
    case (Some r)
    then have "r = x" using Suc.prems by simp
    then obtain c' s' where a: "length s' \<le> length s"
      and b: "(if length s' < length s then starGreedy m n c' s' k else None) = Some x"
      using m Some by blast
    then have "starGreedy m n c' s' k = Some x" and lt: "length s' < length s"
      by (auto split: if_splits)
    then obtain c'' s'' where "length s'' \<le> length s'" "k c'' s'' = Some x"
      using Suc.IH by blast
    then show ?thesis using lt by (intro exI [of _ c''] exI [of _ s'']) simp
  qed
qed

lemma starLazy_length:
  assumes m: "\<forall>c s k x. m c s k = Some x \<longrightarrow> (\<exists>c' s'. length s' \<le> length s \<and> k c' s' = Some x)"
  shows "starLazy m n c s k = Some x \<Longrightarrow> \<exists>c' s'. length s' \<le> length s \<and> k c' s' = Some x"
proof (induction n arbitrary: c s)
  case 0
  then show ?case by auto
next
  case (Suc n)
  show ?case
  proof (cases "k c s")
    case (Some r)
    then show ?thesis using Suc.prems by auto
  next
    case None
    then have "m c s (\<lambda>c' s'. if length s' < length s then starLazy m n c' s' k else None) = Some x"
      using Suc.prems by simp
    then obtain c' s' where a: "length s' \<le> length s"
      and b: "(if length s' < length s then starLazy m n c' s' k else None) = Some x"
      using m by blast
    then have "starLazy m n c' s' k = Some x" and lt: "length s' < length s"
      by (auto split: if_splits)
    then obtain c'' s'' where "length s'' \<le> length s'" "k c'' s'' = Some x"
      using Suc.IH by blast
    then show ?thesis using lt by (intro exI [of _ c''] exI [of _ s'']) simp
  qed
qed


lemma rmatch_length:
  fixes k :: "'a cont"
  shows "rmatch r c s k = Some x \<Longrightarrow> \<exists>c' s'. length s' \<le> length s \<and> k c' s' = Some x"
proof (induction r arbitrary: c s k x)
  case (Lit l)
  then have "k c (drop (length l) s) = Some x" by (simp split: if_splits)
  then show ?case by (intro exI [of _ c] exI [of _ "drop (length l) s"]) simp
next
  case (LitI l)
  then have "k c (drop (length l) s) = Some x" by (simp split: if_splits)
  then show ?case by (intro exI [of _ c] exI [of _ "drop (length l) s"]) simp
next
  case (Cls P)
  then obtain y ys where "s = y # ys" "k c ys = Some x"
    by (cases s) (auto split: if_splits)
  then show ?case by (intro exI [of _ c] exI [of _ ys]) simp
next
  case (Seq a b)
  from Seq.prems have "rmatch a c s (\<lambda>c' s'. rmatch b c' s' k) = Some x" by simp
  from Seq.IH(1) [OF this]
  obtain c' s' where 1: "length s' \<le> length s" "rmatch b c' s' k = Some x" by blast
  from Seq.IH(2) [OF 1(2)]
  obtain c'' s'' where "length s'' \<le> length s'" "k c'' s'' = Some x" by blast
  then show ?case using 1(1) by (intro exI [of _ c''] exI [of _ s'']) simp
next
  case (Alt a b)
  show ?case
  proof (cases "rmatch a c s k")
    case None
    then have "rmatch b c s k = Some x" using Alt.prems by simp
    then show ?thesis by (rule Alt.IH(2))
  next
    case (Some r)
    then have "rmatch a c s k = Some x" using Alt.prems by simp
    then show ?thesis by (rule Alt.IH(1))
  qed
next
  case (Opt a)
  show ?case
  proof (cases "rmatch a c s k")
    case None
    then have "k c s = Some x" using Opt.prems by simp
    then show ?thesis by (intro exI [of _ c] exI [of _ s]) simp
  next
    case (Some r)
    then have "rmatch a c s k = Some x" using Opt.prems by simp
    then show ?thesis by (rule Opt.IH)
  qed
next
  case (Star a)
  have ih: "\<forall>c s (k :: 'a cont) x. rmatch a c s k = Some x \<longrightarrow>
              (\<exists>c' s'. length s' \<le> length s \<and> k c' s' = Some x)"
    using Star.IH by blast
  have "starGreedy (rmatch a) (length s) c s k = Some x" using Star.prems by simp
  then show ?case by (rule starGreedy_length [OF ih])
next
  case (StarLazy a)
  have ih: "\<forall>c s (k :: 'a cont) x. rmatch a c s k = Some x \<longrightarrow>
              (\<exists>c' s'. length s' \<le> length s \<and> k c' s' = Some x)"
    using StarLazy.IH by blast
  have "starLazy (rmatch a) (length s) c s k = Some x" using StarLazy.prems by simp
  then show ?case by (rule starLazy_length [OF ih])
next
  case (Plus a)
  have ih: "\<forall>c s (k :: 'a cont) x. rmatch a c s k = Some x \<longrightarrow>
              (\<exists>c' s'. length s' \<le> length s \<and> k c' s' = Some x)"
    using Plus.IH by blast
  from Plus.prems
  have "rmatch a c s (\<lambda>c' s'. starGreedy (rmatch a) (length s') c' s' k) = Some x" by simp
  from Plus.IH [OF this]
  obtain c' s' where 1: "length s' \<le> length s"
    "starGreedy (rmatch a) (length s') c' s' k = Some x" by blast
  from starGreedy_length [OF ih 1(2)]
  obtain c'' s'' where "length s'' \<le> length s'" "k c'' s'' = Some x" by blast
  then show ?case using 1(1) by (intro exI [of _ c''] exI [of _ s'']) simp
next
  case (Grp a)
  from Grp.prems
  have "rmatch a c s (\<lambda>c' s'. k (Some (take (length s - length s') s)) s') = Some x" by simp
  from Grp.IH [OF this]
  obtain c' s' where "length s' \<le> length s" "k (Some (take (length s - length s') s)) s' = Some x"
    by blast
  then show ?case by (intro exI [of _ "Some (take (length s - length s') s)"] exI [of _ s']) simp
qed

text \<open>The bound on the iterations of a repetition does not change what it matches.\<close>

lemma starGreedy_fuel:
  assumes m: "\<forall>c s k x. m c s k = Some x \<longrightarrow> (\<exists>c' s'. length s' \<le> length s \<and> k c' s' = Some x)"
  shows "length s \<le> n \<Longrightarrow> starGreedy m n c s k = starGreedy m (length s) c s k"
proof (induction "length s" arbitrary: s n c rule: less_induct)
  case less
  show ?case
  proof (cases n)
    case 0
    then show ?thesis using less.prems by simp
  next
    case (Suc n')
    show ?thesis
    proof (cases s)
      case Nil
      have "m c [] (\<lambda>c' s'. None) = None"
      proof (cases "m c [] (\<lambda>c' s'. None)")
        case None
        then show ?thesis .
      next
        case (Some x)
        from m [rule_format, OF Some] show ?thesis by simp
      qed
      then show ?thesis using Nil Suc by simp
    next
      case (Cons y ys)
      have "(\<lambda>c' s'. if length s' < length s then starGreedy m n' c' s' k else None) =
            (\<lambda>c' s'. if length s' < length s then starGreedy m (length ys) c' s' k else None)"
      proof (intro ext)
        fix c' s'
        show "(if length s' < length s then starGreedy m n' c' s' k else None) =
              (if length s' < length s then starGreedy m (length ys) c' s' k else None)"
        proof (cases "length s' < length s")
          case True
          have a: "length s' \<le> n'" using True less.prems Suc by simp
          have b: "length s' \<le> length ys" using True Cons by simp
          have "starGreedy m n' c' s' k = starGreedy m (length s') c' s' k"
            using less.hyps [OF True a] .
          moreover have "starGreedy m (length ys) c' s' k = starGreedy m (length s') c' s' k"
            using less.hyps [OF True b] .
          ultimately show ?thesis by simp
        next
          case False
          then show ?thesis by simp
        qed
      qed
      then have "starGreedy m (Suc n') c s k = starGreedy m (Suc (length ys)) c s k"
        by (simp only: starGreedy.simps)
      moreover have "length s = Suc (length ys)" using Cons by simp
      ultimately show ?thesis using Suc by simp
    qed
  qed
qed

lemma starLazy_fuel:
  assumes m: "\<forall>c s k x. m c s k = Some x \<longrightarrow> (\<exists>c' s'. length s' \<le> length s \<and> k c' s' = Some x)"
  shows "length s \<le> n \<Longrightarrow> starLazy m n c s k = starLazy m (length s) c s k"
proof (induction "length s" arbitrary: s n c rule: less_induct)
  case less
  show ?case
  proof (cases n)
    case 0
    then show ?thesis using less.prems by simp
  next
    case (Suc n')
    show ?thesis
    proof (cases s)
      case Nil
      have "m c [] (\<lambda>c' s'. None) = None"
      proof (cases "m c [] (\<lambda>c' s'. None)")
        case None
        then show ?thesis .
      next
        case (Some x)
        from m [rule_format, OF Some] show ?thesis by simp
      qed
      then show ?thesis using Nil Suc by (simp split: option.splits)
    next
      case (Cons y ys)
      have "(\<lambda>c' s'. if length s' < length s then starLazy m n' c' s' k else None) =
            (\<lambda>c' s'. if length s' < length s then starLazy m (length ys) c' s' k else None)"
      proof (intro ext)
        fix c' s'
        show "(if length s' < length s then starLazy m n' c' s' k else None) =
              (if length s' < length s then starLazy m (length ys) c' s' k else None)"
        proof (cases "length s' < length s")
          case True
          have a: "length s' \<le> n'" using True less.prems Suc by simp
          have b: "length s' \<le> length ys" using True Cons by simp
          have "starLazy m n' c' s' k = starLazy m (length s') c' s' k"
            using less.hyps [OF True a] .
          moreover have "starLazy m (length ys) c' s' k = starLazy m (length s') c' s' k"
            using less.hyps [OF True b] .
          ultimately show ?thesis by simp
        next
          case False
          then show ?thesis by simp
        qed
      qed
      then have "starLazy m (Suc n') c s k = starLazy m (Suc (length ys)) c s k"
        by (simp only: starLazy.simps)
      moreover have "length s = Suc (length ys)" using Cons by simp
      ultimately show ?thesis using Suc by simp
    qed
  qed
qed

lemma repetition_bound_enough:
  fixes k :: "'a cont"
  assumes "length s \<le> n"
  shows "rmatch (Star a) c s k = starGreedy (rmatch a) n c s k"
    and "rmatch (StarLazy a) c s k = starLazy (rmatch a) n c s k"
proof -
  have m: "\<forall>c s (k :: 'a cont) x. rmatch a c s k = Some x \<longrightarrow>
             (\<exists>c' s'. length s' \<le> length s \<and> k c' s' = Some x)"
    by (intro allI impI) (rule rmatch_length)
  show "rmatch (Star a) c s k = starGreedy (rmatch a) n c s k"
    using starGreedy_fuel [OF m assms] by simp
  show "rmatch (StarLazy a) c s k = starLazy (rmatch a) n c s k"
    using starLazy_fuel [OF m assms] by simp
qed

lemma matchGlobalFrom_elem:
  "p \<in> set (matchGlobalFrom r skip s) \<Longrightarrow> \<exists>t m. matchAt r t = Some m \<and> p = matched m"
proof (induction s arbitrary: skip)
  case Nil
  show ?case
  proof (cases "matchAt r []")
    case None
    then have False using Nil.prems by (cases "skip = 0") simp_all
    then show ?thesis ..
  next
    case (Some m)
    then have "p = matched m" using Nil.prems by (cases "skip = 0") simp_all
    then show ?thesis using Some by blast
  qed
next
  case (Cons x xs)
  show ?case
  proof (cases "skip = 0")
    case False
    then show ?thesis using Cons by auto
  next
    case True
    show ?thesis
    proof (cases "matchAt r (x # xs)")
      case None
      then show ?thesis using Cons True by auto
    next
      case (Some m)
      then have "p = matched m \<or> p \<in> set (matchGlobalFrom r (length (matched m) - 1) xs)"
        using Cons.prems True by auto
      then show ?thesis using Some Cons.IH by blast
    qed
  qed
qed

lemma toLower_value: "isValueChar (toLower c) \<Longrightarrow> isValueChar c"
proof -
  have "toLower DQUOTE = DQUOTE" "toLower SQUOTE = SQUOTE" "toLower NEWLINE = NEWLINE"
    by (simp_all add: toLower_def)
  then show "isValueChar (toLower c) \<Longrightarrow> isValueChar c"
    by (auto simp: isValueChar_def isQuote_def)
qed

lemma label_chars:
  assumes "l \<in> set [''comment'', ''text'', ''username'']"
  shows "\<forall>c\<in>set l. isValueChar c"
proof -
  have "\<forall>c\<in>set ''comment''. isValueChar c" by (simp add: isValueChar_def isQuote_def)
  moreover have "\<forall>c\<in>set ''text''. isValueChar c" by (simp add: isValueChar_def isQuote_def)
  moreover have "\<forall>c\<in>set ''username''. isValueChar c" by (simp add: isValueChar_def isQuote_def)
  ultimately show ?thesis using assms by auto
qed

lemma label_lower:
  assumes "l \<in> set [''comment'', ''text'', ''username'']"
  shows "map toLower l = l"
proof -
  have "map toLower ''comment'' = ''comment''" by (simp add: toLower_def)
  moreover have "map toLower ''text'' = ''text''" by (simp add: toLower_def)
  moreover have "map toLower ''username'' = ''username''" by (simp add: toLower_def)
  ultimately show ?thesis using assms by auto
qed

lemma hasLabel_value:
  assumes "hasLabel p"
  shows "hasLabel (takeWhile isValueChar p) \<and> p \<noteq> [] \<and> isValueChar (hd p)"
proof -
  obtain l where l: "l \<in> set [''comment'', ''text'', ''username'']"
    and eq: "map toLower (take (length l) p) = l"
    using assms unfolding hasLabel_def by blast
  have len: "length (take (length l) p) = length l"
    using arg_cong [OF eq, of length] by simp
  have all: "\<forall>c\<in>set (take (length l) p). isValueChar c"
  proof
    fix c assume "c \<in> set (take (length l) p)"
    then have "toLower c \<in> set (map toLower (take (length l) p))" by simp
    then have "toLower c \<in> set l" using eq by simp
    then have "isValueChar (toLower c)" using label_chars [OF l] by blast
    then show "isValueChar c" by (rule toLower_value)
  qed
  have "takeWhile isValueChar p =
          takeWhile isValueChar (take (length l) p @ drop (length l) p)" by simp
  also have "\<dots> = take (length l) p @ takeWhile isValueChar (drop (length l) p)"
    using all by (simp only: takeWhile_append2) 
  finally have tw: "takeWhile isValueChar p =
     take (length l) p @ takeWhile isValueChar (drop (length l) p)" .
  have "take (length l) (takeWhile isValueChar p) = take (length l) p"
    using len by (subst tw) simp
  then have "map toLower (take (length l) (takeWhile isValueChar p)) = l"
    using eq by simp
  then have a: "hasLabel (takeWhile isValueChar p)"
    using l unfolding hasLabel_def by blast
  have ne: "l \<noteq> []" using l by auto
  then have pne: "p \<noteq> []" using eq by auto
  obtain x xs where p: "p = x # xs" using pne by (cases p) auto
  obtain y ys where ly: "l = y # ys" using ne by (cases l) auto
  have "x \<in> set (take (length l) p)" using p ly by simp
  then have "isValueChar x" using all by blast
  then show ?thesis using a pne p by simp
qed

lemma matchAt_patternRx_label:
  assumes "matchAt patternRx t = Some m"
  shows "hasLabel (matched m)"
proof -
  let ?K = "\<lambda>c s'. Some \<lparr>matched = take (length t - length s') t, group1 = c, after = s'\<rparr>"
  let ?R = "Seq (Plus (Cls isLabelSep)) valueRx"
  let ?k = "\<lambda>c' s'. rmatch ?R c' s' ?K"
  have a: "rmatch labelRx None t ?k = Some m"
    using assms by (simp add: matchAt_def patternRx_def)
  have "\<exists>l \<in> set [''comment'', ''text'', ''username''].
           map toLower (take (length l) t) = map toLower l \<and> ?k None (drop (length l) t) = Some m"
  proof (cases "rmatch (LitI ''comment'') None t ?k")
    case (Some r)
    then have "rmatch (LitI ''comment'') None t ?k = Some m" using a by (simp add: labelRx_def)
    then have "map toLower (take (length ''comment'') t) = map toLower ''comment'' \<and>
               ?k None (drop (length ''comment'') t) = Some m"
      by (simp only: rmatch.simps split: if_splits) simp
    then show ?thesis by (intro bexI [of _ "''comment''"]) simp_all
  next
    case None
    then have b: "rmatch (Alt (LitI ''text'') (LitI ''username'')) None t ?k = Some m"
      using a by (simp add: labelRx_def)
    show ?thesis
    proof (cases "rmatch (LitI ''text'') None t ?k")
      case (Some r)
      then have "rmatch (LitI ''text'') None t ?k = Some m" using b by simp
      then have "map toLower (take (length ''text'') t) = map toLower ''text'' \<and>
                 ?k None (drop (length ''text'') t) = Some m"
        by (simp only: rmatch.simps split: if_splits) simp
      then show ?thesis by (intro bexI [of _ "''text''"]) simp_all
    next
      case None
      then have "rmatch (LitI ''username'') None t ?k = Some m" using b by simp
      then have "map toLower (take (length ''username'') t) = map toLower ''username'' \<and>
                 ?k None (drop (length ''username'') t) = Some m"
        by (simp only: rmatch.simps split: if_splits) simp
      then show ?thesis by (intro bexI [of _ "''username''"]) simp_all
    qed
  qed
  then obtain l where l: "l \<in> set [''comment'', ''text'', ''username'']"
    and eq: "map toLower (take (length l) t) = map toLower l"
    and r: "rmatch ?R None (drop (length l) t) ?K = Some m"
    by blast
  have low: "map toLower l = l" using l by (rule label_lower)
  obtain c' s' where s': "length s' \<le> length (drop (length l) t)" and k: "?K c' s' = Some m"
    using rmatch_length [OF r] by blast
  have "length (take (length l) t) = length l"
    using arg_cong [OF eq, of length] by simp
  then have len: "length l \<le> length t" by simp
  have m: "matched m = take (length t - length s') t" using k by auto
  have "length l \<le> length t - length s'" using s' len by simp
  then have "take (length l) (matched m) = take (length l) t" using m by (simp add: min_def)
  then have "map toLower (take (length l) (matched m)) = l" using eq low by simp
  then show ?thesis using l unfolding hasLabel_def by blast
qed

lemma starGreedy_Cls_max:
  assumes "length s \<le> n" "k c (dropWhile P s) = Some r"
  shows "starGreedy (rmatch (Cls P)) n c s k = Some r"
  using assms
proof (induction s arbitrary: n)
  case Nil
  then show ?case by (cases n) auto
next
  case (Cons y ys)
  then obtain n' where n: "n = Suc n'" by (cases n) auto
  show ?case
  proof (cases "P y")
    case True
    have "length ys \<le> n'" using Cons.prems(1) n by simp
    moreover have "k c (dropWhile P ys) = Some r" using Cons.prems(2) True by simp
    ultimately have ih: "starGreedy (rmatch (Cls P)) n' c ys k = Some r"
      by (rule Cons.IH)
    have "rmatch (Cls P) c (y # ys)
            (\<lambda>c' s'. if length s' < length (y # ys) then starGreedy (rmatch (Cls P)) n' c' s' k else None) =
          starGreedy (rmatch (Cls P)) n' c ys k"
      using True by simp
    then show ?thesis unfolding n starGreedy.simps using ih by simp
  next
    case False
    have "rmatch (Cls P) c (y # ys)
            (\<lambda>c' s'. if length s' < length (y # ys) then starGreedy (rmatch (Cls P)) n' c' s' k else None) =
          None"
      using False by simp
    moreover have "k c (y # ys) = Some r" using Cons.prems(2) False by simp
    ultimately show ?thesis unfolding n starGreedy.simps by simp
  qed
qed

lemma Opt_Cls_group:
  "\<exists>m. rmatch (Opt (Cls P)) g s (\<lambda>c s'. Some \<lparr>matched = f s', group1 = c, after = s'\<rparr>) = Some m \<and>
       group1 m = g"
proof (cases s)
  case Nil
  then show ?thesis by simp
next
  case (Cons x xs)
  then show ?thesis by (cases "P x") simp_all
qed

lemma matchAt_valueRx_group:
  assumes "p \<noteq> []" "isValueChar (hd p)"
  shows "\<exists>m. regexExec valueRx p = Some m \<and> group1 m = Some (takeWhile isValueChar p)"
proof -
  obtain x xs where p: "p = x # xs" using assms(1) by (cases p) auto
  have x: "isValueChar x" "\<not> isQuote x" using assms(2) p by (auto simp: isValueChar_def)
  let ?K = "\<lambda>c s'. Some \<lparr>matched = take (length p - length s') p, group1 = c, after = s'\<rparr>"
  let ?rest = "dropWhile isValueChar xs"
  let ?g = "Some (take (length p - length ?rest) p)"
  let ?k2 = "\<lambda>c' s'. rmatch (Opt (Cls isQuote)) (Some (take (length p - length s') p)) s' ?K"
  obtain m where m: "?k2 None ?rest = Some m" and g: "group1 m = ?g"
    using Opt_Cls_group [of isQuote ?g ?rest "\<lambda>s'. take (length p - length s') p"] by blast
  have le: "length xs \<le> length xs" by simp
  have sg: "starGreedy (rmatch (Cls isValueChar)) (length xs) None xs ?k2 = Some m"
    using starGreedy_Cls_max [OF le, of ?k2 None isValueChar m] m by simp
  have q: "rmatch (Cls isQuote) None p k = None" for k :: "rxMatch cont"
    using x p by simp
  have v: "rmatch (Cls isValueChar) None p k = k None xs" for k :: "rxMatch cont"
    using x p by simp
  have "matchAt valueRx p = rmatch (Plus (Cls isValueChar)) None p ?k2"
    by (simp only: matchAt_def valueRx_def rmatch.simps(4,6,10) q option.case)
  also have "\<dots> = starGreedy (rmatch (Cls isValueChar)) (length xs) None xs ?k2"
    by (simp only: rmatch.simps(9) v)
  finally have "matchAt valueRx p = Some m" using sg by simp
  then have re: "regexExec valueRx p = Some m" using p by simp
  have "length (takeWhile isValueChar xs @ ?rest) = length xs"
    by (simp only: takeWhile_dropWhile_id)
  then have "length xs = length (takeWhile isValueChar xs) + length ?rest"
    by (simp only: length_append)
  then have "length p - length ?rest = Suc (length (takeWhile isValueChar xs))"
    using p by simp
  moreover have "take (Suc (length (takeWhile isValueChar xs))) p = x # takeWhile isValueChar xs"
  proof -
    have "xs = takeWhile isValueChar xs @ ?rest" by simp
    then have "take (length (takeWhile isValueChar xs)) xs = takeWhile isValueChar xs"
      by (metis append_eq_conv_conj)
    then show ?thesis using p by simp
  qed
  ultimately have "take (length p - length ?rest) p = takeWhile isValueChar p"
    using p x by simp
  then show ?thesis using re g by auto
qed

lemma scrapedComment_label:
  assumes "hasLabel p"
  shows "scrapedComment p = JObj [(''text'', JStr (takeWhile isValueChar p))] \<and>
         hasLabel (takeWhile isValueChar p)"
proof -
  have h: "hasLabel (takeWhile isValueChar p)" "p \<noteq> []" "isValueChar (hd p)"
    using hasLabel_value [OF assms] by auto
  obtain m where "regexExec valueRx p = Some m" "group1 m = Some (takeWhile isValueChar p)"
    using matchAt_valueRx_group [OF h(2,3)] by blast
  then show ?thesis using h(1) by (simp add: scrapedComment_def)
qed

lemma matchGlobal_patternRx_label:
  assumes "p \<in> set (matchGlobal patternRx s)"
  shows "hasLabel p"
proof -
  obtain t m where "matchAt patternRx t = Some m" "p = matched m"
    using assms matchGlobalFrom_elem unfolding matchGlobal_def by blast
  then show ?thesis using matchAt_patternRx_label by blast
qed

lemma includesStr_drop:
  assumes "\<not> includesStr s n" "n \<noteq> []"
  shows "take (length n) (drop i s) \<noteq> n"
  using assms
proof (induction s arbitrary: i)
  case Nil
  then show ?case by simp
next
  case (Cons c cs)
  show ?case
  proof (cases i)
    case 0
    then show ?thesis using Cons.prems by simp
  next
    case (Suc j)
    then show ?thesis using Cons by simp
  qed
qed

lemma take_append_le: "k \<le> length a \<Longrightarrow> take k (a @ b) = take k a"
  by simp

lemma includesStr_append:
  "includesStr (a @ b) n \<longleftrightarrow> includesStr b n \<or> (\<exists>i<length a. take (length n) (drop i (a @ b)) = n)"
proof (induction a)
  case Nil
  then show ?case by simp
next
  case (Cons c cs)
  have "(\<exists>i<length (c # cs). take (length n) (drop i ((c # cs) @ b)) = n) \<longleftrightarrow>
        take (length n) ((c # cs) @ b) = n \<or> (\<exists>i<length cs. take (length n) (drop i (cs @ b)) = n)"
    (is "?L \<longleftrightarrow> ?R")
  proof
    assume ?L
    then obtain i where i: "i < length (c # cs)" "take (length n) (drop i ((c # cs) @ b)) = n" by blast
    show ?R
    proof (cases i)
      case 0
      then show ?thesis using i by simp
    next
      case (Suc j)
      then show ?thesis using i by auto
    qed
  next
    assume ?R
    then show ?L
    proof
      assume "take (length n) ((c # cs) @ b) = n"
      then show ?L by (intro exI [of _ 0]) simp
    next
      assume "\<exists>i<length cs. take (length n) (drop i (cs @ b)) = n"
      then obtain i where "i < length cs" "take (length n) (drop i (cs @ b)) = n" by blast
      then show ?L by (intro exI [of _ "Suc i"]) simp
    qed
  qed
  then show ?case using Cons by auto
qed

lemma includesStr_suffix: "\<not> includesStr (a @ b) n \<Longrightarrow> \<not> includesStr b n"
  by (simp add: includesStr_append)

lemma includesStr_prefix:
  assumes "\<not> includesStr (a @ b) n" "n \<noteq> []"
  shows "\<not> includesStr a n"
proof
  assume "includesStr a n"
  then show False using assms
  proof (induction a)
    case Nil
    then show ?case by simp
  next
    case (Cons c cs)
    from Cons.prems(1) have "take (length n) (c # cs) = n \<or> includesStr cs n" by simp
    then show ?case
    proof
      assume t: "take (length n) (c # cs) = n"
      have "length (take (length n) (c # cs)) = length n" by (subst t) (rule refl)
      then have "length n \<le> length (c # cs)" by simp
      then have "take (length n) ((c # cs) @ b) = take (length n) (c # cs)"
        by (rule take_append_le)
      then have "take (length n) ((c # cs) @ b) = n" by (simp only: t)
      then show False using Cons.prems(2) by simp
    next
      assume "includesStr cs n"
      moreover have "\<not> includesStr (cs @ b) n" using Cons.prems(2) by simp
      ultimately show False using Cons.IH Cons.prems(3) by blast
    qed
  qed
qed

lemma trim_decomp: "\<exists>a b. s = a @ trim s @ b"
proof -
  let ?d = "dropWhile isSpace s"
  have 1: "s = takeWhile isSpace s @ ?d" by simp
  have "rev ?d = takeWhile isSpace (rev ?d) @ dropWhile isSpace (rev ?d)" by simp
  then have "?d = rev (dropWhile isSpace (rev ?d)) @ rev (takeWhile isSpace (rev ?d))"
    by (metis rev_append rev_rev_ident)
  then have "?d = trim s @ rev (takeWhile isSpace (rev ?d))" by (simp add: trim_def)
  then show ?thesis using 1 by metis
qed

lemma includesStr_trim:
  assumes "\<not> includesStr s n" "n \<noteq> []"
  shows "\<not> includesStr (trim s) n"
proof -
  obtain a b where "s = a @ trim s @ b" using trim_decomp by blast
  then have "\<not> includesStr (trim s @ b) n" using assms(1) includesStr_suffix by metis
  then show ?thesis using includesStr_prefix assms(2) by blast
qed

lemma trim_id:
  assumes "s \<noteq> []" "\<not> isSpace (hd s)" "\<not> isSpace (last s)"
  shows "trim s = s"
proof -
  have 1: "dropWhile isSpace s = s" using assms(1,2) by (cases s) auto
  have "rev s \<noteq> []" "\<not> isSpace (hd (rev s))" using assms(1,3) by (auto simp: hd_rev)
  then have "dropWhile isSpace (rev s) = rev s" by (cases "rev s") auto
  then show ?thesis using 1 by (simp add: trim_def)
qed

lemma matchAt_fenceRx_None:
  assumes "take (length FENCE) t \<noteq> FENCE"
  shows "matchAt fenceRx t = None"
  using assms by (simp only: matchAt_def fenceRx_def rmatch.simps(1,4) if_False)

lemma regexExec_fenceRx_None:
  assumes "\<not> includesStr s FENCE"
  shows "regexExec fenceRx s = None"
  using assms
proof (induction s)
  case Nil
  have "matchAt fenceRx [] = None" by (rule matchAt_fenceRx_None) simp
  then show ?case by simp
next
  case (Cons c cs)
  then have a: "take (length FENCE) (c # cs) \<noteq> FENCE" and "\<not> includesStr cs FENCE"
    by (simp_all only: includesStr.simps de_Morgan_disj not_False_eq_True)
  then have "regexExec fenceRx cs = None" using Cons.IH by blast
  then show ?case using matchAt_fenceRx_None [OF a] by (simp only: regexExec.simps option.case)
qed

lemma substring_whole:
  "substring s 0 (int (length s)) = s"
  by (simp add: substring_def Let_def)

lemma braces_span:
  assumes "J \<noteq> []" "hd J = CHR ''{''" "last J = CHR ''}''"
  shows "indexOf J (CHR ''{'') = 0 \<and> lastIndexOf J (CHR ''}'') = int (length J) - 1 \<and>
         1 < length J"
proof -
  obtain x xs where J: "J = x # xs" using assms(1) by (cases J) auto
  have x: "x = CHR ''{''" using assms(2) J by simp
  have "xs \<noteq> []" using assms(3) J x by auto
  then have len: "1 < length J" using J by (cases xs) auto
  have i: "indexOf J (CHR ''{'') = 0" using J x by (simp add: indexOf_def)
  obtain y ys where r: "rev J = y # ys" using assms(1) by (cases "rev J") auto
  then have "y = CHR ''}''" using assms(3) by (metis last_rev list.sel(1) rev_rev_ident hd_rev)
  then have "takeWhile (\<lambda>c. c \<noteq> CHR ''}'') (rev J) = []" using r by simp
  moreover have "CHR ''}'' \<in> set J" using assms(1,3) by (metis last_in_set)
  ultimately have "lastIndexOf J (CHR ''}'') = int (length J) - 1"
    by (simp add: lastIndexOf_def)
  then show ?thesis using i len by simp
qed

lemma braceSpan_object:
  assumes "J \<noteq> []" "hd J = CHR ''{''" "last J = CHR ''}''"
  shows "braceSpan J = J"
proof -
  have b: "indexOf J (CHR ''{'') = 0" "lastIndexOf J (CHR ''}'') = int (length J) - 1" "1 < length J"
    using braces_span [OF assms] by auto
  have "substring J 0 (int (length J) - 1 + 1) = J" using substring_whole [of J] by simp
  then show ?thesis using b by (simp add: braceSpan_def Let_def)
qed

lemma extractJsonString_plain:
  assumes "J \<noteq> []" "hd J = CHR ''{''" "last J = CHR ''}''" "\<not> includesStr J FENCE"
  shows "extractJsonString J = Inr J"
proof -
  have sp: "\<not> isSpace (CHR ''{'')" "\<not> isSpace (CHR ''}'')" by (simp_all add: isSpace_def)
  have t: "trim J = J" using assms(1-3) sp by (simp add: trim_id)
  have f: "regexExec fenceRx J = None" using assms(4) by (rule regexExec_fenceRx_None)
  show ?thesis using t f braceSpan_object [OF assms(1-3)] by (simp add: extractJsonString_def)
qed

lemma starLazy_Any_first:
  assumes "length s \<le> n" "j \<le> length s" "\<forall>i<j. k c (drop i s) = None"
    and "k c (drop j s) = Some r"
  shows "starLazy (rmatch (Cls (\<lambda>c. True))) n c s k = Some r"
  using assms
proof (induction j arbitrary: s n)
  case 0
  then have "k c s = Some r" by simp
  then show ?case by (cases n) simp_all
next
  case (Suc j)
  obtain x xs where s: "s = x # xs" using Suc.prems(2) by (cases s) auto
  obtain n' where n: "n = Suc n'" using Suc.prems(1) s by (cases n) auto
  have k0: "k c s = None" using Suc.prems(3) by (metis drop0 zero_less_Suc)
  have a: "length xs \<le> n'" "j \<le> length xs" using Suc.prems(1,2) s n by auto
  have b: "\<forall>i<j. k c (drop i xs) = None"
  proof (intro allI impI)
    fix i assume "i < j"
    then have "k c (drop (Suc i) s) = None" using Suc.prems(3) by simp
    then show "k c (drop i xs) = None" using s by simp
  qed
  have d: "k c (drop j xs) = Some r" using Suc.prems(4) s by simp
  have ih: "starLazy (rmatch (Cls (\<lambda>c. True))) n' c xs k = Some r"
    using Suc.IH [OF a b d] .
  have "rmatch (Cls (\<lambda>c. True)) c (x # xs)
          (\<lambda>c' s'. if length s' < length (x # xs)
                    then starLazy (rmatch (Cls (\<lambda>c. True))) n' c' s' k else None) =
        starLazy (rmatch (Cls (\<lambda>c. True))) n' c xs k"
    by simp
  then show ?case unfolding n s starLazy.simps using k0 ih s by simp
qed

lemma starGreedy_Cls_none:
  assumes "\<forall>i \<le> length (takeWhile P s). k c (drop i s) = None"
  shows "starGreedy (rmatch (Cls P)) n c s k = None"
  using assms
proof (induction s arbitrary: n)
  case Nil
  then have "k c [] = None" by simp
  then show ?case by (cases n) simp_all
next
  case (Cons y ys)
  have k0: "k c (y # ys) = None" using Cons.prems by (metis drop0 le0)
  show ?case
  proof (cases n)
    case 0
    then show ?thesis using k0 by simp
  next
    case (Suc n')
    show ?thesis
    proof (cases "P y")
      case True
      have "\<forall>i \<le> length (takeWhile P ys). k c (drop i ys) = None"
      proof (intro allI impI)
        fix i assume "i \<le> length (takeWhile P ys)"
        then have "Suc i \<le> length (takeWhile P (y # ys))" using True by simp
        then have "k c (drop (Suc i) (y # ys)) = None" using Cons.prems by blast
        then show "k c (drop i ys) = None" by simp
      qed
      then have ih: "starGreedy (rmatch (Cls P)) n' c ys k = None" by (rule Cons.IH)
      have "rmatch (Cls P) c (y # ys)
              (\<lambda>c' s'. if length s' < length (y # ys)
                        then starGreedy (rmatch (Cls P)) n' c' s' k else None) =
            starGreedy (rmatch (Cls P)) n' c ys k"
        using True by simp
      then show ?thesis unfolding Suc starGreedy.simps using ih k0 by simp
    next
      case False
      have "rmatch (Cls P) c (y # ys)
              (\<lambda>c' s'. if length s' < length (y # ys)
                        then starGreedy (rmatch (Cls P)) n' c' s' k else None) = None"
        using False by simp
      then show ?thesis unfolding Suc starGreedy.simps using k0 by simp
    qed
  qed
qed

lemma no_fence_at:
  assumes "\<not> includesStr J FENCE" "u = drop m J" "u \<noteq> []" "last u = CHR ''}''"
  shows "take (length FENCE) (u @ rest) \<noteq> FENCE"
proof
  assume eq: "take (length FENCE) (u @ rest) = FENCE"
  show False
  proof (cases "length FENCE \<le> length u")
    case True
    then have "take (length FENCE) u = FENCE" using eq take_append_le by metis
    moreover have "take (length FENCE) (drop m J) \<noteq> FENCE"
      using includesStr_drop [OF assms(1)] by simp
    ultimately show False using assms(2) by simp
  next
    case False
    then have len: "length u < 3" by simp
    obtain a as where u: "u = a # as" using assms(3) by (cases u) auto
    have "last u = CHR 0x60"
    proof (cases as)
      case Nil
      then show ?thesis using eq u by simp
    next
      case (Cons b bs)
      then have "bs = []" using len u by simp
      then show ?thesis using eq u Cons by simp
    qed
    then show False using assms(4) by simp
  qed
qed

lemma dropWhile_spaces:
  assumes "\<forall>c\<in>set ws. isSpace c" "t \<noteq> []" "\<not> isSpace (hd t)"
  shows "dropWhile isSpace (ws @ t) = t"
proof -
  have "dropWhile isSpace t = t" using assms(2,3) by (cases t) auto
  then show ?thesis using assms(1) by (simp add: dropWhile_append2)
qed

lemma fence_block:
  assumes ws2: "\<forall>c\<in>set ws2. isSpace c"
    and B: "B \<noteq> []" "last B = CHR ''}''" "\<not> includesStr B FENCE"
  shows "regexExec fenceRx (FENCE @ B @ ws2 @ FENCE) =
           Some \<lparr>matched = FENCE @ B @ ws2 @ FENCE,
                 group1 = Some (dropWhile isSpace (if take 4 B = ''json'' then drop 4 B else B)),
                 after = []\<rparr>"
proof -
  define B' where "B' = (if take 4 B = ''json'' then drop 4 B else B)"
  define G where "G = dropWhile isSpace B'"
  define W where "W = FENCE @ B @ ws2 @ FENCE"
  define M where "M = \<lparr>matched = W, group1 = Some G, after = []\<rparr>"
  define s3 where "s3 = G @ ws2 @ FENCE"
  define K :: "rxMatch cont"
    where "K = (\<lambda>c s'. Some \<lparr>matched = take (length W - length s') W, group1 = c, after = s'\<rparr>)"
  define kE :: "rxMatch cont" where "kE = (\<lambda>c s. rmatch (Lit FENCE) c s K)"
  define k5 :: "rxMatch cont" where "k5 = (\<lambda>c s. rmatch (Star (Cls isSpace)) c s kE)"
  define k4 :: "string \<Rightarrow> rxMatch cont"
    where "k4 = (\<lambda>s c' s'. k5 (Some (take (length s - length s') s)) s')"
  define k3 :: "rxMatch cont"
    where "k3 = (\<lambda>c s. rmatch (StarLazy (Cls (\<lambda>c. True))) c s (k4 s))"
  define k2 :: "rxMatch cont" where "k2 = (\<lambda>c s. rmatch (Star (Cls isSpace)) c s k3)"
  define k1 :: "rxMatch cont" where "k1 = (\<lambda>c s. rmatch (Opt (Lit ''json'')) c s k2)"
  have sp: "\<not> isSpace (CHR ''}'')" "\<not> isSpace (CHR 0x60)"
    by (simp_all add: isSpace_def)

  have json: "B = ''json'' @ B' \<and> B' \<noteq> []" if t: "take 4 B = ''json''"
  proof -
    have "B = take 4 B @ drop 4 B" by simp
    then have b: "B = ''json'' @ B'" using t by (simp add: B'_def)
    have "B' \<noteq> []"
    proof
      assume "B' = []"
      then have "last B = CHR ''n''" using b by simp
      then show False using B(2) by simp
    qed
    then show ?thesis using b by simp
  qed
  have B'ne: "B' \<noteq> []" using json B(1) by (cases "take 4 B = ''json''") (simp_all add: B'_def)
  have "\<exists>a1. B = a1 @ B'"
  proof (cases "take 4 B = ''json''")
    case True
    then have "B = ''json'' @ B'" using json by blast
    then show ?thesis by (rule exI)
  next
    case False
    then have "B = [] @ B'" by (simp add: B'_def)
    then show ?thesis by (rule exI)
  qed
  then obtain a1 where a1: "B = a1 @ B'" by blast
  have lB': "last B' = CHR ''}''" using a1 B'ne B(2) by simp
  have x': "last B' \<in> set B'" "\<not> isSpace (last B')"
    using last_in_set [OF B'ne] lB' sp by (simp_all only: not_False_eq_True)
  have Gne: "G \<noteq> []" unfolding G_def using x' by (simp only: dropWhile_eq_Nil_conv) blast
  have B'G: "B' = takeWhile isSpace B' @ G" by (simp add: G_def)
  have lG: "last G = CHR ''}''" using B'G Gne lB' by (metis last_appendR)
  have nfG: "\<not> includesStr G FENCE"
  proof -
    have "\<not> includesStr B' FENCE" using B(3) a1 includesStr_suffix by metis
    then show ?thesis using B'G includesStr_suffix by metis
  qed

  have kE_fence: "kE g FENCE = Some \<lparr>matched = W, group1 = g, after = []\<rparr>" for g
    by (simp add: kE_def K_def)
  have kE_none: "kE g t = None" if "take (length FENCE) t \<noteq> FENCE" for g t
    using that by (simp only: kE_def rmatch.simps(1) if_False)

  have k5_end: "k5 g (ws2 @ FENCE) = Some \<lparr>matched = W, group1 = g, after = []\<rparr>" for g
  proof -
    have d: "dropWhile isSpace (ws2 @ FENCE) = FENCE"
      using dropWhile_spaces [OF ws2, of FENCE] sp by simp
    have "starGreedy (rmatch (Cls isSpace)) (length (ws2 @ FENCE)) g (ws2 @ FENCE) kE =
            Some \<lparr>matched = W, group1 = g, after = []\<rparr>"
      by (rule starGreedy_Cls_max) (simp_all only: d kE_fence order_refl)
    then show ?thesis by (simp only: k5_def rmatch.simps(7))
  qed

  have k5_inside: "k5 g (drop i G @ ws2 @ FENCE) = None" if i: "i < length G" for g i
  proof -
    let ?u = "drop i G"
    let ?s = "?u @ ws2 @ FENCE"
    have une: "?u \<noteq> []" using i by simp
    have lu: "last ?u = CHR ''}''" using i lG by simp
    have x: "last ?u \<in> set ?u" "\<not> isSpace (last ?u)"
      using une last_in_set [OF une] lu sp by (simp_all only: not_False_eq_True)
    have tw: "takeWhile isSpace ?s = takeWhile isSpace ?u"
      using x by (rule takeWhile_append1)
    have "dropWhile isSpace ?u \<noteq> []"
      using x by (simp only: dropWhile_eq_Nil_conv) blast
    then have "0 < length (dropWhile isSpace ?u)" by simp
    moreover have "length (takeWhile isSpace ?u @ dropWhile isSpace ?u) = length ?u"
      by (simp only: takeWhile_dropWhile_id)
    ultimately have "length (takeWhile isSpace ?u) < length ?u"
      by (simp only: length_append)
    then have lt: "length (takeWhile isSpace ?s) < length ?u" by (simp only: tw)
    have "\<forall>m \<le> length (takeWhile isSpace ?s). kE g (drop m ?s) = None"
    proof (intro allI impI)
      fix m assume "m \<le> length (takeWhile isSpace ?s)"
      then have m: "m < length ?u" using lt by simp
      have d: "drop m ?s = drop (i + m) G @ ws2 @ FENCE" using m by (simp add: add.commute)
      have "drop (i + m) G \<noteq> []" using m by simp
      moreover have "last (drop (i + m) G) = CHR ''}''" using m lG by simp
      ultimately have "take (length FENCE) (drop (i + m) G @ ws2 @ FENCE) \<noteq> FENCE"
        using no_fence_at [OF nfG refl] by blast
      then show "kE g (drop m ?s) = None" using kE_none d by simp
    qed
    then have "starGreedy (rmatch (Cls isSpace)) (length ?s) g ?s kE = None"
      by (rule starGreedy_Cls_none)
    then show ?thesis by (simp only: k5_def rmatch.simps(7))
  qed

  have k3_G: "k3 None s3 = Some M"
  proof -
    have a: "\<forall>i<length G. k4 s3 None (drop i s3) = None"
    proof (intro allI impI)
      fix i assume i: "i < length G"
      then have "drop i s3 = drop i G @ ws2 @ FENCE" by (simp add: s3_def)
      then show "k4 s3 None (drop i s3) = None" using k5_inside [OF i] by (simp add: k4_def)
    qed
    have "drop (length G) s3 = ws2 @ FENCE" by (simp add: s3_def)
    moreover have "take (length s3 - length (ws2 @ FENCE)) s3 = G" by (simp add: s3_def)
    ultimately have b: "k4 s3 None (drop (length G) s3) = Some M"
      using k5_end [of "Some G"] by (simp add: k4_def M_def)
    have le: "length G \<le> length s3" by (simp add: s3_def)
    have "starLazy (rmatch (Cls (\<lambda>c. True))) (length s3) None s3 (k4 s3) = Some M"
      using starLazy_Any_first [of s3 "length s3" "length G" "k4 s3" None M] le a b by blast
    then show ?thesis by (simp only: k3_def rmatch.simps(8))
  qed

  have k2_ws: "k2 None (B' @ ws2 @ FENCE) = Some M"
  proof -
    have "dropWhile isSpace (B' @ ws2 @ FENCE) = dropWhile isSpace B' @ ws2 @ FENCE"
      using x' by (rule dropWhile_append1)
    then have d: "dropWhile isSpace (B' @ ws2 @ FENCE) = s3" by (simp only: s3_def G_def)
    have "starGreedy (rmatch (Cls isSpace)) (length (B' @ ws2 @ FENCE)) None (B' @ ws2 @ FENCE) k3 =
            Some M"
      by (rule starGreedy_Cls_max) (simp_all only: d k3_G order_refl)
    then show ?thesis by (simp only: k2_def rmatch.simps(7))
  qed

  have k1_tag: "k1 None (B @ ws2 @ FENCE) = Some M"
  proof (cases "take 4 B = ''json''")
    case True
    then have b: "B = ''json'' @ B'" using json by blast
    have "rmatch (Lit ''json'') None (''json'' @ B' @ ws2 @ FENCE) k2 = k2 None (B' @ ws2 @ FENCE)"
      by simp
    then have "rmatch (Lit ''json'') None (B @ ws2 @ FENCE) k2 = Some M"
      using b k2_ws by (metis append_assoc)
    then show ?thesis by (simp add: k1_def)
  next
    case False
    then have e: "B' = B" by (simp add: B'_def)
    have l4: "length ''json'' = 4" by simp
    have "take (length ''json'') (B @ ws2 @ FENCE) \<noteq> ''json''"
    proof
      assume "take (length ''json'') (B @ ws2 @ FENCE) = ''json''"
      then have t: "take 4 (B @ ws2 @ FENCE) = ''json''" unfolding l4 .
      show False
      proof (cases "4 \<le> length B")
        case True
        have "take 4 B = ''json''"
          using take_append_le [OF True, of "ws2 @ FENCE"] t by (simp only:)
        then show False using False by (simp only:)
      next
        case short: False
        have "take (length B) (take 4 (B @ ws2 @ FENCE)) = take (min (length B) 4) (B @ ws2 @ FENCE)"
          by (rule take_take)
        also have "min (length B) 4 = length B" using short by simp
        also have "take (length B) (B @ ws2 @ FENCE) = B" by simp
        finally have "take (length B) ''json'' = B" unfolding t .
        then have "set B \<subseteq> set ''json''" by (metis set_take_subset)
        moreover have "last B \<in> set B" using B(1) by simp
        ultimately have "CHR ''}'' \<in> set ''json''" using B(2) by auto
        then show False by simp
      qed
    qed
    then have "rmatch (Lit ''json'') None (B @ ws2 @ FENCE) k2 = None"
      by (simp only: rmatch.simps(1) if_False)
    then show ?thesis using e k2_ws by (simp add: k1_def)
  qed

  have unfold: "matchAt fenceRx W = rmatch (Lit FENCE) None W k1"
    by (simp only: matchAt_def fenceRx_def rmatch.simps(4,10)
          k1_def k2_def k3_def k4_def k5_def kE_def K_def)
  have "rmatch (Lit FENCE) None W k1 = k1 None (B @ ws2 @ FENCE)"
    by (simp add: W_def)
  then have "matchAt fenceRx W = Some M" using unfold k1_tag by simp
  moreover obtain w ws where "W = w # ws" by (cases W) (simp_all add: W_def)
  ultimately have "regexExec fenceRx W = Some M" by simp
  then show ?thesis by (simp add: W_def M_def G_def B'_def)
qed

section \<open>Properties of the response normalizer\<close>

lemma isArray_iff: "isArray v \<longleftrightarrow> (\<exists>vs. v = Some (JArr vs))"
  by (cases v rule: isArray.cases) auto

lemma substring_0: "substring s 0 (int n) = take n s"
  by (auto simp: substring_def Let_def min_def max_def)

lemma parseJsonResponse_Inr:
  assumes "parseJsonResponse parse responseText = Inr p"
  shows "\<exists>cs. commentsOf p = Inr (Some (JArr cs))"
  using assms
  by (auto simp: parseJsonResponse_def isArray_iff split: sum.splits option.splits if_splits)

lemma commentsOf_scrapeComments:
  "commentsOf (scrapeComments responseText) =
     Inr (Some (JArr (if matchGlobal patternRx responseText \<noteq> []
                      then map scrapedComment (matchGlobal patternRx responseText)
                      else [JObj [(''text'', JStr (take 500 responseText))]])))"
  using substring_0 [of responseText 500]
  by (simp add: scrapeComments_def Let_def)

lemma normalizeResponse_fallback:
  assumes "parseJsonResponse parse responseText = Inl e"
  shows "normalizeResponse parse responseText =
     Inr (JArr (if matchGlobal patternRx responseText \<noteq> []
                then map scrapedComment (matchGlobal patternRx responseText)
                else [JObj [(''text'', JStr (take 500 responseText))]]))"
  using assms by (simp add: normalizeResponse_def commentsOf_scrapeComments)

lemma normalizeResponse_parsed:
  assumes "parseJsonResponse parse responseText = Inr p"
  shows "\<exists>cs. commentsOf p = Inr (Some (JArr cs)) \<and>
              normalizeResponse parse responseText = Inr (JArr cs)"
proof -
  obtain cs where "commentsOf p = Inr (Some (JArr cs))"
    using parseJsonResponse_Inr [OF assms] by blast
  then show ?thesis using assms by (simp add: normalizeResponse_def)
qed

lemma normalizeResponse_array: "\<exists>cs. normalizeResponse parse responseText = Inr (JArr cs)"
proof (cases "parseJsonResponse parse responseText")
  case (Inl e)
  then show ?thesis using normalizeResponse_fallback [OF Inl] by auto
next
  case (Inr p)
  then show ?thesis using normalizeResponse_parsed [OF Inr] by auto
qed

lemma scraped_elements:
  "\<forall>p \<in> set (matchGlobal patternRx responseText).
     scrapedComment p = JObj [(''text'', JStr (takeWhile isValueChar p))]"
  using matchGlobal_patternRx_label scrapedComment_label by blast

lemma fallback_elements:
  assumes "cs = (if matchGlobal patternRx responseText \<noteq> []
                 then map scrapedComment (matchGlobal patternRx responseText)
                 else [JObj [(''text'', JStr (take 500 responseText))]])"
  shows "cs \<noteq> [] \<and> (\<forall>c \<in> set cs. \<exists>t. c = JObj [(''text'', JStr t)])"
  using assms scraped_elements [of responseText] by auto

lemma text_only_is_comment: "specIsComment (JObj [(''text'', JStr t)])"
  by (simp add: specOptionalString_def)

lemma parseJsonResponse_candidate:
  assumes "parseJsonResponse parse responseText = Inr p"
  shows "\<exists>j. extractJsonString responseText = Inr j \<and> parse j = Some p"
  using assms
  by (auto simp: parseJsonResponse_def split: sum.splits option.splits if_splits)

text \<open>
  Claim C1, as the claim states it, fails: the array of a parsed response is returned as it
  was parsed, so its elements need not be Comments.  Here the only element is a number.
\<close>

theorem comment_sequence_counterexample:
  \<open>normalizeResponse JSON_parse ''{"comments":[7]}'' = Inr (JArr [JNum ''7'']) \<and>
   \<not> list_all specIsComment [JNum ''7'']\<close>
  by code_simp

text \<open>
  Claim C1, amended.  Whatever \<open>JSON.parse\<close> does and whatever the response text is, the
  normalizer returns an array and throws nothing.  When the \<open>try\<close> block fails, with whatever
  error, the result is the non-empty array of the fallback: the scraped fragments if there
  are any, the single truncated comment otherwise; each of its elements has the one field
  \<open>text\<close>, a string, and so is a Comment.  When the \<open>try\<close> block completes, the candidate
  was parsed and the result is the \<open>comments\<close> array of the parsed value, with the elements
  it was parsed with.
\<close>

theorem normalizeResponse_never_throws:
  "(\<exists>cs. normalizeResponse parse responseText = Inr (JArr cs)) \<and>
   (parseJsonResponse parse responseText = Inl e \<longrightarrow>
      (\<exists>cs. cs \<noteq> [] \<and> normalizeResponse parse responseText = Inr (JArr cs) \<and>
         cs = (if matchGlobal patternRx responseText \<noteq> []
               then map scrapedComment (matchGlobal patternRx responseText)
               else [JObj [(''text'', JStr (take 500 responseText))]]) \<and>
         (\<forall>c \<in> set cs. \<exists>t. c = JObj [(''text'', JStr t)]) \<and>
         list_all specIsComment cs)) \<and>
   (parseJsonResponse parse responseText = Inr p \<longrightarrow>
      (\<exists>j cs. extractJsonString responseText = Inr j \<and> parse j = Some p \<and>
         commentsOf p = Inr (Some (JArr cs)) \<and>
         normalizeResponse parse responseText = Inr (JArr cs)))"
proof (intro conjI impI)
  show "\<exists>cs. normalizeResponse parse responseText = Inr (JArr cs)"
    by (rule normalizeResponse_array)
next
  assume f: "parseJsonResponse parse responseText = Inl e"
  define cs where "cs = (if matchGlobal patternRx responseText \<noteq> []
               then map scrapedComment (matchGlobal patternRx responseText)
               else [JObj [(''text'', JStr (take 500 responseText))]])"
  have n: "normalizeResponse parse responseText = Inr (JArr cs)"
    using normalizeResponse_fallback [OF f] by (simp add: cs_def)
  have el: "cs \<noteq> [] \<and> (\<forall>c \<in> set cs. \<exists>t. c = JObj [(''text'', JStr t)])"
    using cs_def by (rule fallback_elements)
  have ne: "cs \<noteq> []" using el by (rule conjunct1)
  have tx: "\<forall>c \<in> set cs. \<exists>t. c = JObj [(''text'', JStr t)]" using el by (rule conjunct2)
  have "\<forall>c \<in> set cs. specIsComment c"
  proof
    fix c assume "c \<in> set cs"
    then obtain t where "c = JObj [(''text'', JStr t)]" using tx by blast
    then show "specIsComment c" using text_only_is_comment by simp
  qed
  then have la: "list_all specIsComment cs" by (simp add: list_all_iff)
  show "\<exists>cs. cs \<noteq> [] \<and> normalizeResponse parse responseText = Inr (JArr cs) \<and>
         cs = (if matchGlobal patternRx responseText \<noteq> []
               then map scrapedComment (matchGlobal patternRx responseText)
               else [JObj [(''text'', JStr (take 500 responseText))]]) \<and>
         (\<forall>c \<in> set cs. \<exists>t. c = JObj [(''text'', JStr t)]) \<and>
         list_all specIsComment cs"
    by (intro exI [of _ cs] conjI) (fact ne n cs_def tx la)+
next
  assume s: "parseJsonResponse parse responseText = Inr p"
  obtain j where j1: "extractJsonString responseText = Inr j" and j2: "parse j = Some p"
    using parseJsonResponse_candidate [OF s] by blast
  obtain cs where c1: "commentsOf p = Inr (Some (JArr cs))"
    and c2: "normalizeResponse parse responseText = Inr (JArr cs)"
    using normalizeResponse_parsed [OF s] by blast
  show "\<exists>j cs. extractJsonString responseText = Inr j \<and> parse j = Some p \<and>
         commentsOf p = Inr (Some (JArr cs)) \<and>
         normalizeResponse parse responseText = Inr (JArr cs)"
    by (intro exI [of _ j] exI [of _ cs] conjI) (fact j1 j2 c1 c2)+
qed

theorem normalizeResponse_never_throws_witness:
  \<open>parseJsonResponse JSON_parse ''not json'' = Inl SyntaxError \<and>
   normalizeResponse JSON_parse ''not json'' = Inr (JArr [JObj [(''text'', JStr ''not json'')]]) \<and>
   parseJsonResponse JSON_parse ''{"comments":[{"username":"bob"}]}'' =
     Inr (JObj [(''comments'', JArr [JObj [(''username'', JStr ''bob'')]])]) \<and>
   normalizeResponse JSON_parse ''{"comments":[{"username":"bob"}]}'' =
     Inr (JArr [JObj [(''username'', JStr ''bob'')]])\<close>
proof -
  have h: "parseJsonResponse JSON_parse ''not json'' = Inl SyntaxError" by code_simp
  have m: "matchGlobal patternRx ''not json'' = []" by code_simp
  have "\<exists>cs. normalizeResponse JSON_parse ''not json'' = Inr (JArr cs) \<and>
         cs = (if matchGlobal patternRx ''not json'' \<noteq> []
               then map scrapedComment (matchGlobal patternRx ''not json'')
               else [JObj [(''text'', JStr (take 500 ''not json''))]])"
    using normalizeResponse_never_throws [of JSON_parse "''not json''" SyntaxError] h by blast
  then have w1: "normalizeResponse JSON_parse ''not json'' =
      Inr (JArr [JObj [(''text'', JStr ''not json'')]])"
    using m by simp
  have g: \<open>parseJsonResponse JSON_parse ''{"comments":[{"username":"bob"}]}'' =
     Inr (JObj [(''comments'', JArr [JObj [(''username'', JStr ''bob'')]])])\<close>
    by code_simp
  have \<open>\<exists>cs. commentsOf (JObj [(''comments'', JArr [JObj [(''username'', JStr ''bob'')]])]) =
            Inr (Some (JArr cs)) \<and>
          normalizeResponse JSON_parse ''{"comments":[{"username":"bob"}]}'' = Inr (JArr cs)\<close>
    using normalizeResponse_never_throws
      [of JSON_parse \<open>''{"comments":[{"username":"bob"}]}''\<close> SyntaxError
          \<open>JObj [(''comments'', JArr [JObj [(''username'', JStr ''bob'')]])]\<close>] g
    by blast
  then have w2: \<open>normalizeResponse JSON_parse ''{"comments":[{"username":"bob"}]}'' =
     Inr (JArr [JObj [(''username'', JStr ''bob'')]])\<close>
    by simp
  show ?thesis using h w1 g w2 by (simp only: simp_thms)
qed

text \<open>
  Claim C4.  When the \<open>try\<close> block fails and the response has no fragment that the scraping
  pattern matches, the normalizer returns exactly one comment, whose only field is \<open>text\<close>
  and whose text is the first 500 characters of the response.
\<close>

theorem last_resort_single_comment:
  assumes "parseJsonResponse parse responseText = Inl e"
    and "matchGlobal patternRx responseText = []"
  shows "normalizeResponse parse responseText =
           Inr (JArr [JObj [(''text'', JStr (take 500 responseText))]])"
  using normalizeResponse_fallback [OF assms(1)] assms(2) by simp

theorem last_resort_single_comment_witness:
  "parseJsonResponse JSON_parse ''Sorry, nothing here'' = Inl SyntaxError \<and>
   matchGlobal patternRx ''Sorry, nothing here'' = [] \<and>
   normalizeResponse JSON_parse ''Sorry, nothing here'' =
     Inr (JArr [JObj [(''text'', JStr ''Sorry, nothing here'')]])"
proof -
  have h: "parseJsonResponse JSON_parse ''Sorry, nothing here'' = Inl SyntaxError" by code_simp
  have m: "matchGlobal patternRx ''Sorry, nothing here'' = []" by code_simp
  show ?thesis
    using last_resort_single_comment [OF h m] h m by simp
qed

text \<open>
  Claim C10.  When the \<open>try\<close> block fails and the scraping pattern matches, every comment
  of the result is an object whose only field is \<open>text\<close>; no \<open>username\<close>, \<open>timestamp\<close> or
  \<open>likes\<close> is set, whichever label the fragment starts with.  The text is the fragment up to
  its first quote or line feed, and it still starts with the label that was matched.
\<close>

theorem scraped_comments_text_with_label:
  assumes "parseJsonResponse parse responseText = Inl e"
    and "matchGlobal patternRx responseText \<noteq> []"
  shows "normalizeResponse parse responseText =
           Inr (JArr (map (\<lambda>p. JObj [(''text'', JStr (takeWhile isValueChar p))])
                        (matchGlobal patternRx responseText))) \<and>
         (\<forall>p \<in> set (matchGlobal patternRx responseText).
            hasLabel p \<and> hasLabel (takeWhile isValueChar p))"
proof -
  let ?ps = "matchGlobal patternRx responseText"
  have l: "\<forall>p \<in> set ?ps. hasLabel p"
    using matchGlobal_patternRx_label by blast
  then have "\<forall>p \<in> set ?ps.
      scrapedComment p = JObj [(''text'', JStr (takeWhile isValueChar p))] \<and>
      hasLabel (takeWhile isValueChar p)"
    using scrapedComment_label by blast
  then have "map scrapedComment ?ps =
               map (\<lambda>p. JObj [(''text'', JStr (takeWhile isValueChar p))]) ?ps"
    and "\<forall>p \<in> set ?ps. hasLabel (takeWhile isValueChar p)"
    by auto
  then show ?thesis
    using normalizeResponse_fallback [OF assms(1)] assms(2) l by simp
qed

theorem scraped_comments_text_with_label_witness:
  "parseJsonResponse JSON_parse ''username: bob\<newline>text: hi'' = Inl SyntaxError \<and>
   matchGlobal patternRx ''username: bob\<newline>text: hi'' = [''username: bob'', ''text: hi''] \<and>
   normalizeResponse JSON_parse ''username: bob\<newline>text: hi'' =
     Inr (JArr [JObj [(''text'', JStr ''username: bob'')], JObj [(''text'', JStr ''text: hi'')]]) \<and>
   hasLabel ''username: bob'' \<and> hasLabel ''text: hi''"
proof -
  have h: "parseJsonResponse JSON_parse ''username: bob\<newline>text: hi'' = Inl SyntaxError"
    by code_simp
  have m: "matchGlobal patternRx ''username: bob\<newline>text: hi'' = [''username: bob'', ''text: hi'']"
    by code_simp
  have ne: "matchGlobal patternRx ''username: bob\<newline>text: hi'' \<noteq> []"
    using m by simp
  have t: "takeWhile isValueChar ''username: bob'' = ''username: bob''"
    "takeWhile isValueChar ''text: hi'' = ''text: hi''"
    by code_simp+
  show ?thesis
    using scraped_comments_text_with_label [OF h ne] h m t by simp
qed

lemma extractJsonString_trim:
  assumes "trim s \<noteq> []" "hd (trim s) = CHR ''{''" "last (trim s) = CHR ''}''"
    and "\<not> includesStr s FENCE"
  shows "extractJsonString s = Inr (trim s)"
proof -
  have nf: "\<not> includesStr (trim s) FENCE" using includesStr_trim [OF assms(4)] by simp
  have f: "regexExec fenceRx (trim s) = None" using nf by (rule regexExec_fenceRx_None)
  show ?thesis using f braceSpan_object [OF assms(1-3)] by (simp add: extractJsonString_def)
qed

lemma normalizeResponse_candidate:
  assumes "extractJsonString s = Inr j" "parse j = Some v" "commentsOf v = Inr (Some (JArr cs))"
  shows "normalizeResponse parse s = Inr (JArr cs)"
  using assms by (simp add: normalizeResponse_def parseJsonResponse_def)

lemma braceSpan_after_prefix:
  assumes p: "CHR ''{'' \<notin> set p"
    and J: "J \<noteq> []" "hd J = CHR ''{''" "last J = CHR ''}''"
  shows "braceSpan (p @ J) = J"
proof -
  obtain J' where J': "J = CHR ''{'' # J'" using J(1,2) by (cases J) auto
  have len: "1 < length J" using braces_span [OF J] by simp
  have "takeWhile (\<lambda>x. x \<noteq> CHR ''{'') (p @ J) = p @ takeWhile (\<lambda>x. x \<noteq> CHR ''{'') J"
    by (rule takeWhile_append2) (use p in auto)
  then have tw: "takeWhile (\<lambda>x. x \<noteq> CHR ''{'') (p @ J) = p" by (simp add: J')
  have i: "indexOf (p @ J) (CHR ''{'') = int (length p)"
    using J' tw by (simp add: indexOf_def)
  obtain y ys where r: "rev J = y # ys" using J(1) by (cases "rev J") auto
  then have "y = CHR ''}''" using J(3) by (metis last_rev list.sel(1) rev_rev_ident hd_rev)
  then have "takeWhile (\<lambda>c. c \<noteq> CHR ''}'') (rev (p @ J)) = []" using r by simp
  moreover have "CHR ''}'' \<in> set (p @ J)" using J(1,3) last_in_set [OF J(1)] by simp
  ultimately have l: "lastIndexOf (p @ J) (CHR ''}'') = int (length (p @ J)) - 1"
    by (simp add: lastIndexOf_def)
  have "substring (p @ J) (int (length p)) (int (length (p @ J)) - 1 + 1) = J"
    by (simp add: substring_def Let_def)
  then show ?thesis using i l len by (simp add: braceSpan_def Let_def)
qed

lemma object_after_cut:
  assumes "pre @ J = a @ G" "CHR ''{'' \<notin> set a" "J \<noteq> []" "hd J = CHR ''{''"
  shows "\<exists>p. G = p @ J \<and> pre = a @ p"
proof -
  from assms(1) obtain us where
    "(pre = a @ us \<and> us @ J = G) \<or> (pre @ us = a \<and> J = us @ G)"
    by (auto simp: append_eq_append_conv2)
  then show ?thesis
  proof
    assume "pre = a @ us \<and> us @ J = G"
    then show ?thesis by auto
  next
    assume h: "pre @ us = a \<and> J = us @ G"
    have "us = []"
    proof (rule ccontr)
      assume "us \<noteq> []"
      then have "hd us = CHR ''{''" using h assms(4) by (metis hd_append2)
      then have "CHR ''{'' \<in> set us" using \<open>us \<noteq> []\<close> by (metis hd_in_set)
      then show False using h assms(2) by auto
    qed
    then show ?thesis using h by auto
  qed
qed

lemma extractJsonString_wrapped:
  assumes tag: "CHR ''{'' \<notin> set tag"
    and ws1: "\<forall>c\<in>set ws1. isSpace c" and ws2: "\<forall>c\<in>set ws2. isSpace c"
    and J: "J \<noteq> []" "hd J = CHR ''{''" "last J = CHR ''}''"
    and nf: "\<not> includesStr (tag @ ws1 @ J) FENCE"
  shows "extractJsonString (FENCE @ tag @ ws1 @ J @ ws2 @ FENCE) = Inr J"
proof -
  define B where "B = tag @ ws1 @ J"
  define B' where "B' = (if take 4 B = ''json'' then drop 4 B else B)"
  define G where "G = dropWhile isSpace B'"
  let ?W = "FENCE @ B @ ws2 @ FENCE"
  have sp: "\<not> isSpace (CHR ''{'')" "\<not> isSpace (CHR ''}'')" "\<not> isSpace (CHR 0x60)"
    by (simp_all add: isSpace_def)
  have Bne: "B \<noteq> []" and lB: "last B = CHR ''}''" using J(1,3) by (simp_all add: B_def)
  have nfB: "\<not> includesStr B FENCE" using nf unfolding B_def .
  have "?W \<noteq> []" "hd ?W = CHR 0x60" "last ?W = CHR 0x60" by simp_all
  then have tw: "trim ?W = ?W" using sp(3) by (simp only: trim_id not_False_eq_True)
  have f: "regexExec fenceRx ?W = Some \<lparr>matched = ?W, group1 = Some G, after = []\<rparr>"
    using fence_block [OF ws2 Bne lB nfB] by (simp only: G_def B'_def)
  have pre: "CHR ''{'' \<notin> set (tag @ ws1)" using tag ws1 sp(1) by auto
  have "\<exists>a. B = a @ B' \<and> CHR ''{'' \<notin> set a"
  proof (cases "take 4 B = ''json''")
    case True
    have "B = take 4 B @ drop 4 B" by simp
    then have "B = ''json'' @ B'" using True by (simp add: B'_def)
    moreover have "CHR ''{'' \<notin> set ''json''" by simp
    ultimately show ?thesis by blast
  next
    case False
    then have "B = [] @ B'" by (simp add: B'_def)
    then show ?thesis by (metis empty_iff list.set(1))
  qed
  then obtain a where a: "B = a @ B'" "CHR ''{'' \<notin> set a" by blast
  have b: "B' = takeWhile isSpace B' @ G" by (simp add: G_def)
  have "CHR ''{'' \<notin> set (takeWhile isSpace B')"
    using sp(1) by (metis set_takeWhileD)
  then have c: "CHR ''{'' \<notin> set (a @ takeWhile isSpace B')" using a(2) by simp
  have "(tag @ ws1) @ J = (a @ takeWhile isSpace B') @ G"
    using a(1) b by (simp add: B_def)
  then obtain p where p: "G = p @ J" "tag @ ws1 = (a @ takeWhile isSpace B') @ p"
    using object_after_cut [OF _ c J(1,2)] by blast
  have pb: "CHR ''{'' \<notin> set p" using p(2) pre by (metis Un_iff set_append)
  have Gne: "G \<noteq> []" and lG: "last G = CHR ''}''" using p(1) J(1,3) by simp_all
  have "\<not> isSpace (hd G)" using Gne hd_dropWhile [of isSpace B'] by (simp add: G_def)
  then have tG: "trim G = G" using Gne lG sp(2) by (simp add: trim_id)
  have "braceSpan G = J" using braceSpan_after_prefix [OF pb J] by (simp only: p(1))
  then have bs: "braceSpan (trim G) = J" by (simp only: tG)
  have "extractJsonString ?W = Inr J"
    unfolding extractJsonString_def tw f using bs by simp
  then show ?thesis by (simp add: B_def)
qed

text \<open>
  Claim C3, as the claim states it, fails: the normalizer returns the elements of the parsed
  array as they are, so a field that is not recognized stays in the comment, where the
  coercion of the specification would drop it.
\<close>

theorem no_coercion_counterexample:
  \<open>normalizeResponse JSON_parse ''{"comments":[{"text":"a","extra":"b"}]}'' =
     Inr (JArr [JObj [(''text'', JStr ''a''), (''extra'', JStr ''b'')]]) \<and>
   specCoerceComment (JObj [(''text'', JStr ''a''), (''extra'', JStr ''b'')]) =
     JObj [(''text'', JStr ''a'')]\<close>
  by code_simp

text \<open>
  Claim C3, amended.  When the trimmed response is the text of a JSON object (it starts with
  \<open>{\<close> and ends with \<open>}\<close>), the response holds no fence delimiter, the text parses, and the
  \<open>comments\<close> property of the parsed value is an array, then the normalizer returns the
  elements of that array, all of them, in order and unchanged: every field of an element
  is kept, recognized or not, and none is added.
\<close>

theorem valid_json_comments_unchanged:
  assumes "trim responseText \<noteq> []"
    and "hd (trim responseText) = CHR ''{''" and "last (trim responseText) = CHR ''}''"
    and "\<not> includesStr responseText FENCE"
    and "parse (trim responseText) = Some v"
    and "commentsOf v = Inr (Some (JArr cs))"
  shows "normalizeResponse parse responseText = Inr (JArr cs)"
  using normalizeResponse_candidate [of responseText "trim responseText" parse v cs]
    extractJsonString_trim [OF assms(1-4)] assms(5,6)
  by blast

theorem valid_json_comments_unchanged_witness:
  \<open>trim '' {"comments":[{"likes":null,"text":"a","extra":"b"},7]}\<newline>'' =
     ''{"comments":[{"likes":null,"text":"a","extra":"b"},7]}'' \<and>
   normalizeResponse JSON_parse '' {"comments":[{"likes":null,"text":"a","extra":"b"},7]}\<newline>'' =
     Inr (JArr [JObj [(''likes'', JNull), (''text'', JStr ''a''), (''extra'', JStr ''b'')],
                JNum ''7''])\<close>
proof -
  let ?r = \<open>'' {"comments":[{"likes":null,"text":"a","extra":"b"},7]}\<newline>''\<close>
  let ?v = \<open>JObj [(''comments'',
              JArr [JObj [(''likes'', JNull), (''text'', JStr ''a''), (''extra'', JStr ''b'')],
                    JNum ''7''])]\<close>
  have t: \<open>trim ?r = ''{"comments":[{"likes":null,"text":"a","extra":"b"},7]}''\<close>
    by code_simp
  have a: "trim ?r \<noteq> []" "hd (trim ?r) = CHR ''{''" "last (trim ?r) = CHR ''}''"
    by (simp_all add: t)
  have b: "\<not> includesStr ?r FENCE" by code_simp
  have c: "JSON_parse (trim ?r) = Some ?v" by code_simp
  have d: "commentsOf ?v =
     Inr (Some (JArr [JObj [(''likes'', JNull), (''text'', JStr ''a''), (''extra'', JStr ''b'')],
                      JNum ''7'']))"
    by simp
  have "normalizeResponse JSON_parse ?r =
     Inr (JArr [JObj [(''likes'', JNull), (''text'', JStr ''a''), (''extra'', JStr ''b'')],
                JNum ''7''])"
    using valid_json_comments_unchanged [of ?r JSON_parse ?v] a b c d by blast
  then show ?thesis using t by simp
qed

text \<open>
  Claim C8, as the claim states it, fails, in three ways.  \<open>{}\<close> is valid JSON, but it has no
  comment array, so both the wrapped and the bare text end in the last-resort comment,
  which carries the response text itself, fence included.  A tag that holds a \<open>{\<close> becomes
  part of the candidate, which then does not parse.  And a fence delimiter inside the JSON
  text ends the block early.
\<close>

theorem fenced_json_counterexample:
  \<open>JSON_parse ''{}'' = Some (JObj []) \<and>
   normalizeResponse JSON_parse ''```json\<newline>{}\<newline>```'' =
     Inr (JArr [JObj [(''text'', JStr ''```json\<newline>{}\<newline>```'')]]) \<and>
   normalizeResponse JSON_parse ''{}'' = Inr (JArr [JObj [(''text'', JStr ''{}'')]]) \<and>
   normalizeResponse JSON_parse ''```{r}\<newline>{"comments":[]}\<newline>```'' =
     Inr (JArr [JObj [(''text'', JStr ''```{r}\<newline>{"comments":[]}\<newline>```'')]]) \<and>
   normalizeResponse JSON_parse ''```\<newline>{"comments":["```"]}\<newline>```'' =
     Inr (JArr [JObj [(''text'', JStr ''```\<newline>{"comments":["```"]}\<newline>```'')]]) \<and>
   normalizeResponse JSON_parse ''{"comments":["```"]}'' = Inr (JArr [JStr ''```'']) \<and>
   normalizeResponse JSON_parse ''{"comments":[]}'' = Inr (JArr [])\<close>
  by code_simp

text \<open>
  Claim C8, amended.  For a block made of a fence delimiter, a tag, white space, the text
  \<open>J\<close> of a JSON object, white space and a closing fence delimiter, where the tag is any
  text without \<open>{\<close> (\<open>json\<close>, \<open>javascript\<close>, none), the content of the block holds no fence
  delimiter, and \<open>J\<close> parses and has an array as its \<open>comments\<close> property, the normalizer
  returns what it returns for \<open>J\<close> alone: the elements of that array.
\<close>

theorem fenced_json_same_as_plain:
  assumes "CHR ''{'' \<notin> set tag"
    and "\<forall>c\<in>set ws1. isSpace c" and "\<forall>c\<in>set ws2. isSpace c"
    and "J \<noteq> []" and "hd J = CHR ''{''" and "last J = CHR ''}''"
    and "\<not> includesStr (tag @ ws1 @ J) FENCE"
    and "parse J = Some v" and "commentsOf v = Inr (Some (JArr cs))"
  shows "normalizeResponse parse (FENCE @ tag @ ws1 @ J @ ws2 @ FENCE) = normalizeResponse parse J \<and>
         normalizeResponse parse J = Inr (JArr cs)"
proof -
  have nfJ: "\<not> includesStr J FENCE"
    using assms(7) includesStr_suffix [of "tag @ ws1" J FENCE] by simp
  have "normalizeResponse parse (FENCE @ tag @ ws1 @ J @ ws2 @ FENCE) = Inr (JArr cs)"
    using normalizeResponse_candidate [of "FENCE @ tag @ ws1 @ J @ ws2 @ FENCE" J parse v cs]
      extractJsonString_wrapped [OF assms(1-7)] assms(8,9)
    by blast
  moreover have "normalizeResponse parse J = Inr (JArr cs)"
    using normalizeResponse_candidate [of J J parse v cs]
      extractJsonString_plain [OF assms(4-6) nfJ] assms(8,9)
    by blast
  ultimately show ?thesis by simp
qed

theorem fenced_json_same_as_plain_witness:
  \<open>normalizeResponse JSON_parse ''```javascript\<newline>{"comments":[{"text":"hi"}]} \<newline>```'' =
     normalizeResponse JSON_parse ''{"comments":[{"text":"hi"}]}'' \<and>
   normalizeResponse JSON_parse ''```json\<newline>{"comments":[{"text":"hi"}]}```'' =
     normalizeResponse JSON_parse ''{"comments":[{"text":"hi"}]}'' \<and>
   normalizeResponse JSON_parse ''```{"comments":[{"text":"hi"}]}```'' =
     normalizeResponse JSON_parse ''{"comments":[{"text":"hi"}]}'' \<and>
   normalizeResponse JSON_parse ''{"comments":[{"text":"hi"}]}'' =
     Inr (JArr [JObj [(''text'', JStr ''hi'')]])\<close>
proof -
  let ?J = \<open>''{"comments":[{"text":"hi"}]}''\<close>
  let ?v = \<open>JObj [(''comments'', JArr [JObj [(''text'', JStr ''hi'')]])]\<close>
  have t: "CHR ''{'' \<notin> set ''javascript''" "CHR ''{'' \<notin> set ''json''" "CHR ''{'' \<notin> set ''''"
    by simp_all
  have w: "\<forall>c\<in>set ''\<newline>''. isSpace c" "\<forall>c\<in>set '' \<newline>''. isSpace c" "\<forall>c\<in>set ''''. isSpace c"
    by (simp_all add: isSpace_def)
  have j: "?J \<noteq> []" "hd ?J = CHR ''{''" "last ?J = CHR ''}''" by simp_all
  have nf: "\<not> includesStr (''javascript'' @ ''\<newline>'' @ ?J) FENCE"
    "\<not> includesStr (''json'' @ ''\<newline>'' @ ?J) FENCE"
    "\<not> includesStr ('''' @ '''' @ ?J) FENCE"
    by code_simp+
  have p: "JSON_parse ?J = Some ?v" by code_simp
  have c: "commentsOf ?v = Inr (Some (JArr [JObj [(''text'', JStr ''hi'')]]))" by simp
  have a1: "normalizeResponse JSON_parse (FENCE @ ''javascript'' @ ''\<newline>'' @ ?J @ '' \<newline>'' @ FENCE) =
          normalizeResponse JSON_parse ?J \<and>
        normalizeResponse JSON_parse ?J = Inr (JArr [JObj [(''text'', JStr ''hi'')]])"
    using fenced_json_same_as_plain [of "''javascript''" "''\<newline>''" "'' \<newline>''" ?J JSON_parse ?v]
      t(1) w(1,2) j nf(1) p c
    by blast
  have a2: "normalizeResponse JSON_parse (FENCE @ ''json'' @ ''\<newline>'' @ ?J @ '''' @ FENCE) =
          normalizeResponse JSON_parse ?J"
    using fenced_json_same_as_plain [of "''json''" "''\<newline>''" "''''" ?J JSON_parse ?v]
      t(2) w(1,3) j nf(2) p c
    by blast
  have a3: "normalizeResponse JSON_parse (FENCE @ '''' @ '''' @ ?J @ '''' @ FENCE) =
          normalizeResponse JSON_parse ?J"
    using fenced_json_same_as_plain [of "''''" "''''" "''''" ?J JSON_parse ?v]
      t(3) w(3) j nf(3) p c
    by blast
  show ?thesis using a1 a2 a3 by simp
qed

lemma starGreedy_some:
  assumes m: "\<forall>c s k x. c \<noteq> None \<longrightarrow> m c s k = Some x \<longrightarrow> (\<exists>c' s'. c' \<noteq> None \<and> k c' s' = Some x)"
  shows "c \<noteq> None \<Longrightarrow> starGreedy m n c s k = Some x \<Longrightarrow> \<exists>c' s'. c' \<noteq> None \<and> k c' s' = Some x"
proof (induction n arbitrary: c s)
  case 0
  then show ?case by auto
next
  case (Suc n)
  show ?case
  proof (cases "m c s (\<lambda>c' s'. if length s' < length s then starGreedy m n c' s' k else None)")
    case None
    then show ?thesis using Suc.prems by auto
  next
    case (Some r)
    then have "r = x" using Suc.prems by simp
    then have eq: "m c s (\<lambda>c' s'. if length s' < length s then starGreedy m n c' s' k else None) = Some x"
      using Some by simp
    from m [rule_format, OF Suc.prems(1) eq]
    obtain c' s' where a: "c' \<noteq> None"
      and b: "(if length s' < length s then starGreedy m n c' s' k else None) = Some x"
      by blast
    have "starGreedy m n c' s' k = Some x" using b by (simp split: if_splits)
    from Suc.IH [OF a this] show ?thesis .
  qed
qed

lemma starLazy_some:
  assumes m: "\<forall>c s k x. c \<noteq> None \<longrightarrow> m c s k = Some x \<longrightarrow> (\<exists>c' s'. c' \<noteq> None \<and> k c' s' = Some x)"
  shows "c \<noteq> None \<Longrightarrow> starLazy m n c s k = Some x \<Longrightarrow> \<exists>c' s'. c' \<noteq> None \<and> k c' s' = Some x"
proof (induction n arbitrary: c s)
  case 0
  then show ?case by auto
next
  case (Suc n)
  show ?case
  proof (cases "k c s")
    case (Some r)
    then show ?thesis using Suc.prems by auto
  next
    case None
    then have eq: "m c s (\<lambda>c' s'. if length s' < length s then starLazy m n c' s' k else None) = Some x"
      using Suc.prems by simp
    from m [rule_format, OF Suc.prems(1) eq]
    obtain c' s' where a: "c' \<noteq> None"
      and b: "(if length s' < length s then starLazy m n c' s' k else None) = Some x"
      by blast
    have "starLazy m n c' s' k = Some x" using b by (simp split: if_splits)
    from Suc.IH [OF a this] show ?thesis .
  qed
qed

lemma rmatch_some:
  fixes k :: "'a cont"
  shows "c \<noteq> None \<Longrightarrow> rmatch r c s k = Some x \<Longrightarrow> \<exists>c' s'. c' \<noteq> None \<and> k c' s' = Some x"
proof (induction r arbitrary: c s k x)
  case (Lit l)
  then have "k c (drop (length l) s) = Some x" by (simp split: if_splits)
  then show ?case using Lit.prems(1) by blast
next
  case (LitI l)
  then have "k c (drop (length l) s) = Some x" by (simp split: if_splits)
  then show ?case using LitI.prems(1) by blast
next
  case (Cls P)
  then obtain y ys where "s = y # ys" "k c ys = Some x"
    by (cases s) (auto split: if_splits)
  then show ?case using Cls.prems(1) by blast
next
  case (Seq a b)
  from Seq.prems have "rmatch a c s (\<lambda>c' s'. rmatch b c' s' k) = Some x" by simp
  from Seq.IH(1) [OF Seq.prems(1) this]
  obtain c' s' where 1: "c' \<noteq> None" "rmatch b c' s' k = Some x" by blast
  from Seq.IH(2) [OF 1] show ?case .
next
  case (Alt a b)
  show ?case
  proof (cases "rmatch a c s k")
    case None
    then have "rmatch b c s k = Some x" using Alt.prems by simp
    then show ?thesis using Alt.IH(2) Alt.prems(1) by blast
  next
    case (Some r)
    then have "rmatch a c s k = Some x" using Alt.prems by simp
    then show ?thesis using Alt.IH(1) Alt.prems(1) by blast
  qed
next
  case (Opt a)
  show ?case
  proof (cases "rmatch a c s k")
    case None
    then have "k c s = Some x" using Opt.prems by simp
    then show ?thesis using Opt.prems(1) by blast
  next
    case (Some r)
    then have "rmatch a c s k = Some x" using Opt.prems by simp
    then show ?thesis using Opt.IH Opt.prems(1) by blast
  qed
next
  case (Star a)
  have ih: "\<forall>c s (k :: 'a cont) x. c \<noteq> None \<longrightarrow> rmatch a c s k = Some x \<longrightarrow>
              (\<exists>c' s'. c' \<noteq> None \<and> k c' s' = Some x)"
    using Star.IH by blast
  have "starGreedy (rmatch a) (length s) c s k = Some x" using Star.prems by simp
  then show ?case using starGreedy_some [OF ih Star.prems(1)] by blast
next
  case (StarLazy a)
  have ih: "\<forall>c s (k :: 'a cont) x. c \<noteq> None \<longrightarrow> rmatch a c s k = Some x \<longrightarrow>
              (\<exists>c' s'. c' \<noteq> None \<and> k c' s' = Some x)"
    using StarLazy.IH by blast
  have "starLazy (rmatch a) (length s) c s k = Some x" using StarLazy.prems by simp
  then show ?case using starLazy_some [OF ih StarLazy.prems(1)] by blast
next
  case (Plus a)
  have ih: "\<forall>c s (k :: 'a cont) x. c \<noteq> None \<longrightarrow> rmatch a c s k = Some x \<longrightarrow>
              (\<exists>c' s'. c' \<noteq> None \<and> k c' s' = Some x)"
    using Plus.IH by blast
  from Plus.prems
  have "rmatch a c s (\<lambda>c' s'. starGreedy (rmatch a) (length s') c' s' k) = Some x" by simp
  from Plus.IH [OF Plus.prems(1) this]
  obtain c' s' where 1: "c' \<noteq> None"
    "starGreedy (rmatch a) (length s') c' s' k = Some x" by blast
  from starGreedy_some [OF ih 1] show ?case .
next
  case (Grp a)
  from Grp.prems
  have "rmatch a c s (\<lambda>c' s'. k (Some (take (length s - length s') s)) s') = Some x" by simp
  from rmatch_length [OF this]
  obtain c' s' where "k (Some (take (length s - length s') s)) s' = Some x" by blast
  then show ?case by blast
qed

lemma regexExec_matchAt: "regexExec r s = Some m \<Longrightarrow> \<exists>t. matchAt r t = Some m"
proof (induction s)
  case Nil
  then show ?case by auto
next
  case (Cons x xs)
  show ?case
  proof (cases "matchAt r (x # xs)")
    case None
    then show ?thesis using Cons by simp
  next
    case (Some m')
    then show ?thesis using Cons.prems by auto
  qed
qed

lemma matchAt_fenceRx_group:
  assumes "matchAt fenceRx t = Some m"
  shows "\<exists>g. group1 m = Some g"
proof -
  define K :: "rxMatch cont"
    where "K = (\<lambda>c s'. Some \<lparr>matched = take (length t - length s') t, group1 = c, after = s'\<rparr>)"
  define R4 where "R4 = Seq (Star (Cls isSpace)) (Lit FENCE)"
  define R3 where "R3 = Seq (Grp (StarLazy (Cls (\<lambda>c. True)))) R4"
  define R2 where "R2 = Seq (Star (Cls isSpace)) R3"
  define R1 where "R1 = Seq (Opt (Lit ''json'')) R2"
  have "rmatch (Seq (Lit FENCE) R1) None t K = Some m"
    using assms by (simp only: matchAt_def fenceRx_def K_def R1_def R2_def R3_def R4_def)
  then have "rmatch (Lit FENCE) None t (\<lambda>c s. rmatch R1 c s K) = Some m"
    by (simp only: rmatch.simps(4))
  from rmatch_length [OF this]
  obtain c1 s1 where "rmatch R1 c1 s1 K = Some m" by blast
  then have "rmatch (Opt (Lit ''json'')) c1 s1 (\<lambda>c s. rmatch R2 c s K) = Some m"
    by (simp only: R1_def rmatch.simps(4))
  from rmatch_length [OF this]
  obtain c2 s2 where "rmatch R2 c2 s2 K = Some m" by blast
  then have "rmatch (Star (Cls isSpace)) c2 s2 (\<lambda>c s. rmatch R3 c s K) = Some m"
    by (simp only: R2_def rmatch.simps(4))
  from rmatch_length [OF this]
  obtain c3 s3 where "rmatch R3 c3 s3 K = Some m" by blast
  then have "rmatch (StarLazy (Cls (\<lambda>c. True))) c3 s3
               (\<lambda>c' s'. rmatch R4 (Some (take (length s3 - length s') s3)) s' K) = Some m"
    by (simp only: R3_def rmatch.simps(4,10))
  from rmatch_length [OF this]
  obtain s4 where "rmatch R4 (Some (take (length s3 - length s4) s3)) s4 K = Some m" by blast
  from rmatch_some [OF _ this]
  obtain c5 s5 where "c5 \<noteq> None" "K c5 s5 = Some m" by blast
  then show ?thesis by (auto simp: K_def)
qed

lemma extractJsonString_cases:
  "(regexExec fenceRx (trim s) = None \<and> extractJsonString s = Inr (braceSpan (trim s))) \<or>
   (\<exists>m g. regexExec fenceRx (trim s) = Some m \<and> group1 m = Some g \<and>
           extractJsonString s = Inr (braceSpan (trim g)))"
proof (cases "regexExec fenceRx (trim s)")
  case None
  then show ?thesis by (simp add: extractJsonString_def)
next
  case (Some m)
  then obtain g where "group1 m = Some g"
    using regexExec_matchAt matchAt_fenceRx_group by blast
  then show ?thesis using Some by (simp add: extractJsonString_def)
qed

lemma substring_part: "\<exists>a b. s = a @ substring s x y @ b"
proof -
  have "s = take n s @ take k (drop n s) @ drop k (drop n s)" for n k
    by (metis append_take_drop_id)
  then show ?thesis unfolding substring_def Let_def by blast
qed

lemma braceSpan_part: "\<exists>a b. s = a @ braceSpan s @ b"
proof (cases "braceSpan s = s")
  case True
  then show ?thesis by (metis append_Nil append_Nil2)
next
  case False
  then have "braceSpan s = substring s (indexOf s (CHR ''{'')) (lastIndexOf s (CHR ''}'') + 1)"
    by (auto simp: braceSpan_def Let_def split: if_splits)
  then show ?thesis using substring_part by metis
qed

lemma parseJsonResponse_candidate_fails:
  assumes "extractJsonString s = Inr j"
    and "parse j = None \<or> (\<exists>v. parse j = Some v \<and> (\<forall>cs. commentsOf v \<noteq> Inr (Some (JArr cs))))"
  shows "\<exists>e. parseJsonResponse parse s = Inl e"
  using assms
  by (auto simp: parseJsonResponse_def isArray_iff split: sum.splits option.splits)

text \<open>
  Claim C2, as the claim states it, fails: when the content of a fenced block does not
  parse, the route does not look for a brace span in the raw text.  Here the
  specification's ladder finds the object after the fence and returns its empty comment
  list, while the route ends in the last-resort comment.
\<close>

theorem strategy_order_counterexample:
  \<open>normalizeResponse JSON_parse ''```nope``` {"comments":[]}'' =
     Inr (JArr [JObj [(''text'', JStr ''```nope``` {"comments":[]}'')]]) \<and>
   specLadder JSON_parse ''```nope``` {"comments":[]}'' = JArr []\<close>
  by code_simp

text \<open>
  Claim C2, amended.  The normalizer builds one candidate and parses it once.  The
  candidate is the brace span of the trimmed response when no fence matches, and the brace
  span of the trimmed content of the fenced block when a fence matches; the brace span of
  a text is a part of that text, so nothing outside a matched fence is ever considered.
  If the candidate does not parse, or parses to a value whose \<open>comments\<close> property is not an
  array (the value is \<open>null\<close>, is not an object, or has no such array), the result is that
  of the scraping fallback on the raw response; if it parses to a value whose \<open>comments\<close>
  property is an array, the result is that array.
\<close>

theorem single_candidate_then_fallback:
  "(regexExec fenceRx (trim responseText) = None \<longrightarrow>
      extractJsonString responseText = Inr (braceSpan (trim responseText))) \<and>
   (regexExec fenceRx (trim responseText) = Some m \<longrightarrow>
      (\<exists>g. group1 m = Some g \<and> extractJsonString responseText = Inr (braceSpan (trim g)))) \<and>
   (\<exists>a b. c = a @ braceSpan c @ b) \<and>
   (extractJsonString responseText = Inr j \<and>
    (parse j = None \<or> parse j = Some v \<and> (\<forall>cs. commentsOf v \<noteq> Inr (Some (JArr cs)))) \<longrightarrow>
      normalizeResponse parse responseText =
        Inr (JArr (if matchGlobal patternRx responseText \<noteq> []
                   then map scrapedComment (matchGlobal patternRx responseText)
                   else [JObj [(''text'', JStr (take 500 responseText))]]))) \<and>
   (extractJsonString responseText = Inr j \<and> parse j = Some v \<and>
    commentsOf v = Inr (Some (JArr cs)) \<longrightarrow>
      normalizeResponse parse responseText = Inr (JArr cs))"
proof -
  have a: "extractJsonString responseText = Inr (braceSpan (trim responseText))"
    if "regexExec fenceRx (trim responseText) = None"
    using that extractJsonString_cases [of responseText] by auto
  have b: "\<exists>g. group1 m = Some g \<and> extractJsonString responseText = Inr (braceSpan (trim g))"
    if "regexExec fenceRx (trim responseText) = Some m"
    using that extractJsonString_cases [of responseText] by auto
  have d: "normalizeResponse parse responseText =
        Inr (JArr (if matchGlobal patternRx responseText \<noteq> []
                   then map scrapedComment (matchGlobal patternRx responseText)
                   else [JObj [(''text'', JStr (take 500 responseText))]]))"
    if h: "extractJsonString responseText = Inr j \<and>
        (parse j = None \<or> parse j = Some v \<and> (\<forall>cs. commentsOf v \<noteq> Inr (Some (JArr cs))))"
  proof -
    have "\<exists>e. parseJsonResponse parse responseText = Inl e"
      using parseJsonResponse_candidate_fails [of responseText j parse] h by blast
    then obtain e where "parseJsonResponse parse responseText = Inl e" by blast
    then show ?thesis by (rule normalizeResponse_fallback)
  qed
  have e: "normalizeResponse parse responseText = Inr (JArr cs)"
    if "extractJsonString responseText = Inr j \<and> parse j = Some v \<and>
        commentsOf v = Inr (Some (JArr cs))"
    using that normalizeResponse_candidate [of responseText j parse v cs] by blast
  show ?thesis using a b braceSpan_part [of c] d e by blast
qed

theorem single_candidate_then_fallback_witness:
  \<open>extractJsonString ''```nope``` {"comments":[]}'' = Inr ''nope'' \<and>
   normalizeResponse JSON_parse ''```nope``` {"comments":[]}'' =
     Inr (JArr [JObj [(''text'', JStr ''```nope``` {"comments":[]}'')]]) \<and>
   extractJsonString ''[1]'' = Inr ''[1]'' \<and>
   normalizeResponse JSON_parse ''[1]'' = Inr (JArr [JObj [(''text'', JStr ''[1]'')]]) \<and>
   extractJsonString ''Here: {"comments":[]} Done.'' = Inr ''{"comments":[]}'' \<and>
   normalizeResponse JSON_parse ''Here: {"comments":[]} Done.'' = Inr (JArr [])\<close>
proof -
  let ?x = \<open>''```nope``` {"comments":[]}''\<close>
  let ?m = \<open>\<lparr>matched = ''```nope```'', group1 = Some ''nope'', after = '' {"comments":[]}''\<rparr>\<close>
  have x1: "regexExec fenceRx (trim ?x) = Some ?m" by code_simp
  have x2: "braceSpan (trim ''nope'') = ''nope''" by code_simp
  have x3: "JSON_parse ''nope'' = None" by code_simp
  have x4: "matchGlobal patternRx ?x = []" by code_simp
  have x5: "take 500 ?x = ?x" by simp
  have w1: "extractJsonString ?x = Inr ''nope''"
    using single_candidate_then_fallback [of ?x ?m] x1 x2 by auto
  have w2: "normalizeResponse JSON_parse ?x = Inr (JArr [JObj [(''text'', JStr ?x)]])"
    using single_candidate_then_fallback [of ?x _ _ "''nope''" JSON_parse] w1 x3 x4 x5 by auto
  have y1: "regexExec fenceRx (trim ''[1]'') = None" by code_simp
  have y2: "braceSpan (trim ''[1]'') = ''[1]''" by code_simp
  have y3: "JSON_parse ''[1]'' = Some (JArr [JNum ''1''])" by code_simp
  have y4: "\<forall>cs. commentsOf (JArr [JNum ''1'']) \<noteq> Inr (Some (JArr cs))" by simp
  have y5: "matchGlobal patternRx ''[1]'' = []" by code_simp
  have w3: "extractJsonString ''[1]'' = Inr ''[1]''"
    using single_candidate_then_fallback [of "''[1]''"] y1 y2 by auto
  have w4: "normalizeResponse JSON_parse ''[1]'' = Inr (JArr [JObj [(''text'', JStr ''[1]'')]])"
    using single_candidate_then_fallback [of "''[1]''" _ _ "''[1]''" JSON_parse "JArr [JNum ''1'']"]
      w3 y3 y4 y5
    by auto
  let ?z = \<open>''Here: {"comments":[]} Done.''\<close>
  let ?j = \<open>''{"comments":[]}''\<close>
  have z1: "regexExec fenceRx (trim ?z) = None" by code_simp
  have z2: "braceSpan (trim ?z) = ?j" by code_simp
  have z3: "JSON_parse ?j = Some (JObj [(''comments'', JArr [])])" by code_simp
  have z4: "commentsOf (JObj [(''comments'', JArr [])]) = Inr (Some (JArr []))" by simp
  have w5: "extractJsonString ?z = Inr ?j"
    using single_candidate_then_fallback [of ?z] z1 z2 by auto
  have w6: "normalizeResponse JSON_parse ?z = Inr (JArr [])"
    using single_candidate_then_fallback
      [of ?z _ _ ?j JSON_parse "JObj [(''comments'', JArr [])]" "[]"] w5 z3 z4
    by auto
  show ?thesis using w1 w2 w3 w4 w5 w6 by simp
qed

section \<open>Properties of the batch orchestrator\<close>

lemma processImage_Inl:
  "generateContent env c b m = Inl e \<Longrightarrow> processImage env c b m nm pg = Inl e"
  by (simp add: processImage_def)

lemma processImage_Inr:
  assumes "generateContent env c b m = Inr resp"
  shows "\<exists>cs. normalizeResponse (jsonParse env) resp = Inr (JArr cs) \<and>
           processImage env c b m nm pg =
             Inr \<lparr>imageName = displayName nm pg, comments = JArr cs, rawResponse = resp\<rparr>"
proof -
  obtain cs where "normalizeResponse (jsonParse env) resp = Inr (JArr cs)"
    using normalizeResponse_array by blast
  then show ?thesis using assms by (simp add: processImage_def)
qed

lemma processImage_ok:
  assumes "generateContent env c b m = Inr resp"
  shows "processImage env c b m nm pg = Inr (okResult env nm pg resp)"
  using processImage_Inr [OF assms, of nm pg] by (auto simp: okResult_def)

lemma renderPages_all:
  assumes "\<forall>p. i \<le> p \<and> p \<le> numPages pdf \<longrightarrow> renderPage env pdf p viewportScale = Inr (img p)"
  shows "renderPages env pdf i acc = Inr (acc @ map img [i..<Suc (numPages pdf)])"
  using assms
proof (induction env pdf i acc rule: renderPages.induct)
  case (1 env pdf pageNum images)
  show ?case
  proof (cases "pageNum \<le> numPages pdf")
    case True
    then have r: "renderPage env pdf pageNum viewportScale = Inr (img pageNum)"
      using "1.prems" by simp
    have ih: "renderPages env pdf (pageNum + 1) (images @ [img pageNum]) =
                Inr ((images @ [img pageNum]) @ map img [pageNum + 1..<Suc (numPages pdf)])"
      using "1.IH" [OF True r] "1.prems" by simp
    have "[pageNum..<Suc (numPages pdf)] = pageNum # [pageNum + 1..<Suc (numPages pdf)]"
      using True by (simp add: upt_conv_Cons)
    then show ?thesis
      using True r ih by (subst renderPages.simps) simp
  next
    case False
    then show ?thesis by (subst renderPages.simps) simp
  qed
qed

lemma renderPages_fault:
  assumes "i \<le> j" "j \<le> numPages pdf"
    and "\<forall>p. i \<le> p \<and> p < j \<longrightarrow> renderPage env pdf p viewportScale = Inr (img p)"
    and "renderPage env pdf j viewportScale = Inl e"
  shows "renderPages env pdf i acc = Inl e"
  using assms
proof (induction env pdf i acc rule: renderPages.induct)
  case (1 env pdf pageNum images)
  show ?case
  proof (cases "pageNum = j")
    case True
    then show ?thesis using "1.prems" by (subst renderPages.simps) simp
  next
    case False
    then have lt: "pageNum < j" and le: "pageNum \<le> numPages pdf" using "1.prems" by auto
    have r: "renderPage env pdf pageNum viewportScale = Inr (img pageNum)"
      using "1.prems" lt by simp
    have "renderPages env pdf (pageNum + 1) (images @ [img pageNum]) = Inl e"
      using "1.IH" [OF le r] "1.prems" lt by simp
    then show ?thesis using le r by (subst renderPages.simps) simp
  qed
qed

lemma processPages_fault:
  assumes "i \<le> j" "j < length imgs"
    and "\<forall>k. i \<le> k \<and> k < j \<longrightarrow>
           processImage env (c + k) (imgs ! k) ''image/png'' (name file) (Some (k + 1)) = Inr (res k)"
    and "processImage env (c + j) (imgs ! j) ''image/png'' (name file) (Some (j + 1)) = Inl e"
  shows "processPages env file imgs i (rs, c + i) = (Some e, (rs @ map res [i..<j], Suc (c + j)))"
  using assms
proof (induction "j - i" arbitrary: i rs)
  case 0
  then have "i = j" by simp
  then show ?case using 0 by (subst processPages.simps) simp
next
  case (Suc d)
  then have lt: "i < j" by simp
  have r: "processImage env (c + i) (imgs ! i) ''image/png'' (name file) (Some (i + 1)) = Inr (res i)"
    using Suc.prems(3) lt by simp
  have ih: "processPages env file imgs (Suc i) (rs @ [res i], c + Suc i) =
              (Some e, ((rs @ [res i]) @ map res [Suc i..<j], Suc (c + j)))"
    using Suc.hyps(1) [of "Suc i" "rs @ [res i]"] Suc.hyps(2) lt Suc.prems by simp
  have u: "[i..<j] = i # [Suc i..<j]" using lt by (simp add: upt_conv_Cons)
  have il: "i < length imgs" using lt Suc.prems(2) by simp
  show ?case
    using il r ih u by (subst processPages.simps) simp
qed

lemma processPages_all:
  assumes "i \<le> length imgs"
    and "\<forall>k. i \<le> k \<and> k < length imgs \<longrightarrow>
           processImage env (c + k) (imgs ! k) ''image/png'' (name file) (Some (k + 1)) = Inr (res k)"
  shows "processPages env file imgs i (rs, c + i) =
           (None, (rs @ map res [i..<length imgs], c + length imgs))"
  using assms
proof (induction "length imgs - i" arbitrary: i rs)
  case 0
  then have "i = length imgs" by simp
  then show ?case by (subst processPages.simps) simp
next
  case (Suc d)
  then have lt: "i < length imgs" by simp
  have r: "processImage env (c + i) (imgs ! i) ''image/png'' (name file) (Some (i + 1)) = Inr (res i)"
    using Suc.prems(2) lt by simp
  have ih: "processPages env file imgs (Suc i) (rs @ [res i], c + Suc i) =
              (None, ((rs @ [res i]) @ map res [Suc i..<length imgs], c + length imgs))"
    using Suc.hyps(1) [of "Suc i" "rs @ [res i]"] Suc.hyps(2) lt Suc.prems by simp
  have u: "[i..<length imgs] = i # [Suc i..<length imgs]" using lt by (simp add: upt_conv_Cons)
  show ?case
    using lt r ih u by (subst processPages.simps) simp
qed

lemma processPages_prefix:
  "processPages env file imgs i (rs, n) =
     (fst (processPages env file imgs i ([], n)),
      (rs @ fst (snd (processPages env file imgs i ([], n))),
       snd (snd (processPages env file imgs i ([], n)))))"
proof (induction "length imgs - i" arbitrary: i rs n)
  case 0
  then show ?case by (subst (1 2 3 4) processPages.simps) simp
next
  case (Suc d)
  then have lt: "i < length imgs" by simp
  show ?case
  proof (cases "processImage env n (imgs ! i) ''image/png'' (name file) (Some (i + 1))")
    case (Inl e)
    then show ?thesis using lt by (subst (1 2 3 4) processPages.simps) simp
  next
    case (Inr r)
    have d: "d = length imgs - Suc i" using Suc.hyps(2) by simp
    have a: "processPages env file imgs (Suc i) (rs @ [r], Suc n) =
       (fst (processPages env file imgs (Suc i) ([], Suc n)),
        ((rs @ [r]) @ fst (snd (processPages env file imgs (Suc i) ([], Suc n))),
         snd (snd (processPages env file imgs (Suc i) ([], Suc n)))))"
      using Suc.hyps(1) [OF d] .
    have b: "processPages env file imgs (Suc i) ([r], Suc n) =
       (fst (processPages env file imgs (Suc i) ([], Suc n)),
        ([r] @ fst (snd (processPages env file imgs (Suc i) ([], Suc n))),
         snd (snd (processPages env file imgs (Suc i) ([], Suc n)))))"
      using Suc.hyps(1) [OF d] .
    show ?thesis
      using lt Inr a b by (subst (1 2 3 4) processPages.simps) simp
  qed
qed

lemma processFile_prefix:
  "processFile env file (rs, n) =
     (rs @ fst (processFile env file ([], n)), snd (processFile env file ([], n)))"
proof -
  have pp: "\<And>imgs. processPages env file imgs 0 (rs, n) =
     (fst (processPages env file imgs 0 ([], n)),
      (rs @ fst (snd (processPages env file imgs 0 ([], n))),
       snd (snd (processPages env file imgs 0 ([], n)))))"
    by (rule processPages_prefix)
  show ?thesis
    unfolding processFile_def
    by (auto simp: pp split: sum.splits option.splits prod.splits)
qed

lemma processFiles_prefix:
  "processFiles env files (rs, n) =
     (rs @ fst (processFiles env files ([], n)), snd (processFiles env files ([], n)))"
proof (induction files arbitrary: rs n)
  case Nil
  then show ?case by simp
next
  case (Cons f fs)
  obtain new n' where pf: "processFile env f ([], n) = (new, n')"
    by (cases "processFile env f ([], n)")
  have a: "processFile env f (rs, n) = (rs @ new, n')"
    using processFile_prefix [of env f rs n] pf by simp
  show ?case
    using Cons.IH [of "rs @ new" n'] Cons.IH [of new n'] a pf by simp
qed

lemma processFiles_Cons_results:
  "fst (processFiles env (file # files) (rs, n)) =
     fst (processFile env file (rs, n)) @
     fst (processFiles env files ([], snd (processFile env file (rs, n))))"
proof -
  obtain rs' n' where pf: "processFile env file (rs, n) = (rs', n')"
    by (cases "processFile env file (rs, n)")
  show ?thesis using processFiles_prefix [of env files rs' n'] pf by simp
qed

lemma errorResult_fields:
  "imageName (errorResult file what e) = name file \<and>
   comments (errorResult file what e) = JArr [] \<and>
   rawResponse (errorResult file what e) = what @ e"
  by (simp add: errorResult_def)

lemma processFile_read_fault:
  assumes "arrayBuffer file = Inl e"
  shows "processFile env file (rs, n) = (rs @ [errorResult file ''Error processing file: '' e], n)"
  using assms by (simp add: processFile_def)

lemma processFile_raster_fault:
  assumes "arrayBuffer file = Inr buf" "isPdf file" "convertPdfToImages env buf = Inl e"
  shows "processFile env file (rs, n) = (rs @ [errorResult file ''Error processing PDF: '' e], n)"
  using assms by (simp add: processFile_def)

lemma processFile_page_fault:
  assumes "arrayBuffer file = Inr buf" "isPdf file" "convertPdfToImages env buf = Inr imgs"
    and "j < length imgs"
    and "\<forall>k<j. generateContent env (n + k) (imgs ! k) ''image/png'' = Inr (resp k)"
    and "generateContent env (n + j) (imgs ! j) ''image/png'' = Inl e"
  shows "processFile env file (rs, n) =
           (rs @ map (\<lambda>k. okResult env (name file) (Some (k + 1)) (resp k)) [0..<j] @
              [errorResult file ''Error processing PDF: '' e],
            Suc (n + j))"
proof -
  have a: "\<forall>k. 0 \<le> k \<and> k < j \<longrightarrow>
      processImage env (n + k) (imgs ! k) ''image/png'' (name file) (Some (k + 1)) =
        Inr (okResult env (name file) (Some (k + 1)) (resp k))"
    using assms(5) processImage_ok by blast
  have b: "processImage env (n + j) (imgs ! j) ''image/png'' (name file) (Some (j + 1)) = Inl e"
    using assms(6) by (rule processImage_Inl)
  have "processPages env file imgs 0 (rs, n + 0) =
          (Some e, (rs @ map (\<lambda>k. okResult env (name file) (Some (k + 1)) (resp k)) [0..<j],
                    Suc (n + j)))"
    using processPages_fault [OF le0 assms(4) a b, of rs] by simp
  then show ?thesis using assms(1-3) by (simp add: processFile_def)
qed

lemma processFile_pages_ok:
  assumes "arrayBuffer file = Inr buf" "isPdf file" "convertPdfToImages env buf = Inr imgs"
    and "\<forall>k<length imgs. generateContent env (n + k) (imgs ! k) ''image/png'' = Inr (resp k)"
  shows "processFile env file (rs, n) =
           (rs @ map (\<lambda>k. okResult env (name file) (Some (k + 1)) (resp k)) [0..<length imgs],
            n + length imgs)"
proof -
  have a: "\<forall>k. 0 \<le> k \<and> k < length imgs \<longrightarrow>
      processImage env (n + k) (imgs ! k) ''image/png'' (name file) (Some (k + 1)) =
        Inr (okResult env (name file) (Some (k + 1)) (resp k))"
    using assms(4) processImage_ok by blast
  have "processPages env file imgs 0 (rs, n + 0) =
          (None, (rs @ map (\<lambda>k. okResult env (name file) (Some (k + 1)) (resp k)) [0..<length imgs],
                  n + length imgs))"
    using processPages_all [OF le0 a, of rs] by simp
  then show ?thesis using assms(1-3) by (simp add: processFile_def)
qed

lemma processFile_image:
  assumes "arrayBuffer file = Inr buf" "\<not> isPdf file"
  shows "processFile env file (rs, n) =
     (case generateContent env n buf (if type file = [] then ''image/jpeg'' else type file) of
        Inl e \<Rightarrow> (rs @ [errorResult file ''Error processing file: '' e], Suc n)
      | Inr resp \<Rightarrow> (rs @ [okResult env (name file) None resp], Suc n))"
proof (cases "generateContent env n buf (if type file = [] then ''image/jpeg'' else type file)")
  case (Inl e)
  then show ?thesis
    using assms processImage_Inl [OF Inl, of "name file" None] by (simp add: processFile_def)
next
  case (Inr resp)
  then show ?thesis
    using assms processImage_ok [OF Inr, of "name file" None] by (simp add: processFile_def)
qed

lemma processFile_image_length:
  assumes "arrayBuffer file = Inr buf" "\<not> isPdf file"
  shows "length (fst (processFile env file (rs, n))) = length rs + 1"
  using processFile_image [OF assms, of env rs n] by (simp split: sum.splits)

lemma imageName_okResult_page:
  "imageName (okResult env nm (Some (k + 1)) resp) = nm @ '' (page '' @ showNat (k + 1) @ '')''"
  by (simp add: okResult_def displayName_def)

lemma convertPdfToImages_no_canvas:
  "\<not> getCreateCanvas env \<Longrightarrow> convertPdfToImages env buf = Inl canvasMissing"
  by (simp add: convertPdfToImages_def)

lemma convertPdfToImages_all:
  assumes "getCreateCanvas env" "getDocument env buf = Inr pdf"
    and "\<forall>p. 1 \<le> p \<and> p \<le> numPages pdf \<longrightarrow> renderPage env pdf p viewportScale = Inr (img p)"
  shows "convertPdfToImages env buf = Inr (map img [1..<Suc (numPages pdf)])"
  using assms renderPages_all [of 1 pdf env img "[]"] by (simp add: convertPdfToImages_def)

lemma POST_Cons:
  "apiKey \<noteq> [] \<Longrightarrow>
   POST env apiKey (file # files) =
     Results (fst (processFile env file ([], 0)) @
              fst (processFiles env files ([], snd (processFile env file ([], 0)))))"
  using processFiles_Cons_results [of env "file" files "[]" 0] by (simp add: POST_def)

lemma demo_convert: "convertPdfToImages demoEnv [7, 8, 9] = Inr [[7, 2], [8, 2], [9, 2]]"
  by code_simp

lemma demo_convert_bad: "convertPdfToImages demoEnv [] = Inl ''Invalid PDF structure''"
  by code_simp

lemma demo_isPdf: "isPdf demoPdf \<and> isPdf demoBadPdf \<and> \<not> isPdf demoImage"
  by code_simp

lemma demo_ok: \<open>okResult demoEnv ''thread.pdf'' (Some 1) ''{"comments":[]}'' =
   \<lparr>imageName = ''thread.pdf (page 1)'', comments = JArr [], rawResponse = ''{"comments":[]}''\<rparr>\<close>
  by code_simp

text \<open>
  Claim C5.  A fault while one file is processed ends the work on that file with exactly one
  error record for it, which has the file's name, no comments and a description of the
  error as its raw response: when the file cannot be read, when a document cannot be turned
  into page images, when the model call for page \<open>j + 1\<close> of a document fails after the
  calls for the pages before it succeeded (their records stay, the error record follows
  them), and when the model call for an image fails.  The loop goes on with the next
  file: the results of a batch are the results of its first file followed by those of the
  remaining files.
\<close>

theorem file_fault_isolated:
  "(arrayBuffer file = Inl e \<longrightarrow>
      processFile env file (rs, n) = (rs @ [errorResult file ''Error processing file: '' e], n)) \<and>
   (arrayBuffer file = Inr buf \<and> isPdf file \<and> convertPdfToImages env buf = Inl e \<longrightarrow>
      processFile env file (rs, n) = (rs @ [errorResult file ''Error processing PDF: '' e], n)) \<and>
   (arrayBuffer file = Inr buf \<and> isPdf file \<and> convertPdfToImages env buf = Inr imgs \<and>
    j < length imgs \<and>
    (\<forall>k<j. generateContent env (n + k) (imgs ! k) ''image/png'' = Inr (resp k)) \<and>
    generateContent env (n + j) (imgs ! j) ''image/png'' = Inl e \<longrightarrow>
      processFile env file (rs, n) =
        (rs @ map (\<lambda>k. okResult env (name file) (Some (k + 1)) (resp k)) [0..<j] @
           [errorResult file ''Error processing PDF: '' e],
         Suc (n + j))) \<and>
   (arrayBuffer file = Inr buf \<and> \<not> isPdf file \<and>
    generateContent env n buf (if type file = [] then ''image/jpeg'' else type file) = Inl e \<longrightarrow>
      processFile env file (rs, n) = (rs @ [errorResult file ''Error processing file: '' e], Suc n)) \<and>
   imageName (errorResult file what e) = name file \<and>
   comments (errorResult file what e) = JArr [] \<and>
   rawResponse (errorResult file what e) = what @ e \<and>
   fst (processFiles env (file # files) (rs, n)) =
     fst (processFile env file (rs, n)) @
     fst (processFiles env files ([], snd (processFile env file (rs, n))))"
proof -
  have d: "processFile env file (rs, n) = (rs @ [errorResult file ''Error processing file: '' e], Suc n)"
    if "arrayBuffer file = Inr buf" "\<not> isPdf file"
      "generateContent env n buf (if type file = [] then ''image/jpeg'' else type file) = Inl e"
    using processFile_image [OF that(1,2), of env rs n] that(3) by simp
  show ?thesis
    using processFile_read_fault [of "file" e env rs n]
      processFile_raster_fault [of "file" buf env e rs n]
      processFile_page_fault [of "file" buf env imgs j n resp e rs]
      d errorResult_fields [of "file" what e]
      processFiles_Cons_results [of env "file" files rs n]
    by blast
qed

theorem file_fault_isolated_witness:
  \<open>processFile demoEnv demoUnreadable ([], 0) =
     ([\<lparr>imageName = ''lost.png'', comments = JArr [],
        rawResponse = ''Error processing file: read failed''\<rparr>], 0) \<and>
   processFile demoEnv demoBadPdf ([], 0) =
     ([\<lparr>imageName = ''empty.PDF'', comments = JArr [],
        rawResponse = ''Error processing PDF: Invalid PDF structure''\<rparr>], 0) \<and>
   processFile demoEnv demoPdf ([], 0) =
     ([\<lparr>imageName = ''thread.pdf (page 1)'', comments = JArr [],
        rawResponse = ''{"comments":[]}''\<rparr>,
       \<lparr>imageName = ''thread.pdf'', comments = JArr [],
        rawResponse = ''Error processing PDF: fetch failed''\<rparr>], 2) \<and>
   processFile demoEnv demoImage ([], 1) =
     ([\<lparr>imageName = ''shot.png'', comments = JArr [],
        rawResponse = ''Error processing file: fetch failed''\<rparr>], 2)\<close>
proof -
  have a: "arrayBuffer demoUnreadable = Inl ''read failed''"
    by (simp add: demoUnreadable_def)
  have b: "arrayBuffer demoBadPdf = Inr [] \<and> isPdf demoBadPdf \<and>
           convertPdfToImages demoEnv [] = Inl ''Invalid PDF structure''"
    using demo_isPdf demo_convert_bad by (simp add: demoBadPdf_def)
  have c: \<open>arrayBuffer demoPdf = Inr [7, 8, 9] \<and> isPdf demoPdf \<and>
           convertPdfToImages demoEnv [7, 8, 9] = Inr [[7, 2], [8, 2], [9, 2]] \<and>
           1 < length [[7, 2], [8, 2], [9, 2::nat]] \<and>
           (\<forall>k<1. generateContent demoEnv (0 + k) ([[7, 2], [8, 2], [9, 2]] ! k) ''image/png'' =
                     Inr ((\<lambda>k. ''{"comments":[]}'') k)) \<and>
           generateContent demoEnv (0 + 1) ([[7, 2], [8, 2], [9, 2]] ! 1) ''image/png'' =
             Inl ''fetch failed''\<close>
    using demo_isPdf demo_convert by (simp add: demoPdf_def demoEnv_def)
  have d: "arrayBuffer demoImage = Inr [5] \<and> \<not> isPdf demoImage \<and>
           generateContent demoEnv 1 [5] (if type demoImage = [] then ''image/jpeg'' else type demoImage) =
             Inl ''fetch failed''"
    using demo_isPdf by (simp add: demoImage_def demoEnv_def)
  have n: "name demoUnreadable = ''lost.png'' \<and> name demoBadPdf = ''empty.PDF'' \<and>
           name demoPdf = ''thread.pdf'' \<and> name demoImage = ''shot.png''"
    by (simp add: demoUnreadable_def demoBadPdf_def demoPdf_def demoImage_def)
  show ?thesis
    using file_fault_isolated [of demoUnreadable "''read failed''" demoEnv "[]" 0]
      file_fault_isolated [of demoBadPdf "''Invalid PDF structure''" demoEnv "[]" 0 "[]"]
      file_fault_isolated [of demoPdf "''fetch failed''" demoEnv "[]" 0 "[7, 8, 9]"
        "[[7, 2], [8, 2], [9, 2]]" 1 \<open>\<lambda>k. ''{"comments":[]}''\<close>]
      file_fault_isolated [of demoImage "''fetch failed''" demoEnv "[]" 1 "[5]"]
      a b c d n demo_ok
    by (simp add: errorResult_def)
qed

text \<open>
  Claim C6, as the claim states it, fails: a document that was turned into three page
  images contributes two records when the model call for its second page fails.
\<close>

theorem batch_length_counterexample:
  \<open>convertPdfToImages demoEnv [7, 8, 9] = Inr [[7, 2], [8, 2], [9, 2]] \<and>
   POST demoEnv ''key'' [demoPdf] =
     Results
       [\<lparr>imageName = ''thread.pdf (page 1)'', comments = JArr [],
         rawResponse = ''{"comments":[]}''\<rparr>,
        \<lparr>imageName = ''thread.pdf'', comments = JArr [],
         rawResponse = ''Error processing PDF: fetch failed''\<rparr>]\<close>
  by code_simp

text \<open>
  Claim C6, amended.  The records of a batch are those of its first file followed by those
  of the remaining files, and a file only appends records.  A file that cannot be read or
  that is not a document appends one record; a document that cannot be turned into page
  images appends one record; a document turned into \<open>K\<close> page images appends \<open>K\<close> records
  named by ascending page number, from page 1, when every model call succeeds; and when
  the call for page \<open>j + 1\<close> is the first to fail it appends \<open>j + 1\<close> records: those of the
  pages 1 to \<open>j\<close> and one error record.
\<close>

theorem batch_order_and_length:
  "fst (processFiles env (file # files) (rs, n)) =
     fst (processFile env file (rs, n)) @
     fst (processFiles env files ([], snd (processFile env file (rs, n)))) \<and>
   (\<exists>new. fst (processFile env file (rs, n)) = rs @ new) \<and>
   (arrayBuffer file = Inl e \<or> arrayBuffer file = Inr buf \<and> \<not> isPdf file \<longrightarrow>
      length (fst (processFile env file (rs, n))) = length rs + 1) \<and>
   (arrayBuffer file = Inr buf \<and> isPdf file \<and> convertPdfToImages env buf = Inl e \<longrightarrow>
      length (fst (processFile env file (rs, n))) = length rs + 1) \<and>
   (arrayBuffer file = Inr buf \<and> isPdf file \<and> convertPdfToImages env buf = Inr imgs \<and>
    (\<forall>k<length imgs. generateContent env (n + k) (imgs ! k) ''image/png'' = Inr (resp k)) \<longrightarrow>
      fst (processFile env file (rs, n)) =
        rs @ map (\<lambda>k. okResult env (name file) (Some (k + 1)) (resp k)) [0..<length imgs] \<and>
      length (fst (processFile env file (rs, n))) = length rs + length imgs) \<and>
   (arrayBuffer file = Inr buf \<and> isPdf file \<and> convertPdfToImages env buf = Inr imgs \<and>
    j < length imgs \<and>
    (\<forall>k<j. generateContent env (n + k) (imgs ! k) ''image/png'' = Inr (resp k)) \<and>
    generateContent env (n + j) (imgs ! j) ''image/png'' = Inl e \<longrightarrow>
      fst (processFile env file (rs, n)) =
        rs @ map (\<lambda>k. okResult env (name file) (Some (k + 1)) (resp k)) [0..<j] @
          [errorResult file ''Error processing PDF: '' e] \<and>
      length (fst (processFile env file (rs, n))) = length rs + j + 1) \<and>
   imageName (okResult env (name file) (Some (k + 1)) r) =
     name file @ '' (page '' @ showNat (k + 1) @ '')''"
proof -
  have a: "\<exists>new. fst (processFile env file (rs, n)) = rs @ new"
    using processFile_prefix [of env "file" rs n] by (metis fst_conv)
  have b: "length (fst (processFile env file (rs, n))) = length rs + 1"
    if "arrayBuffer file = Inl e \<or> arrayBuffer file = Inr buf \<and> \<not> isPdf file"
    using that processFile_read_fault [of "file" e env rs n]
      processFile_image_length [of "file" buf env rs n] by auto
  have c: "length (fst (processFile env file (rs, n))) = length rs + 1"
    if "arrayBuffer file = Inr buf \<and> isPdf file \<and> convertPdfToImages env buf = Inl e"
    using that processFile_raster_fault [of "file" buf env e rs n] by auto
  have d: "fst (processFile env file (rs, n)) =
        rs @ map (\<lambda>k. okResult env (name file) (Some (k + 1)) (resp k)) [0..<length imgs] \<and>
      length (fst (processFile env file (rs, n))) = length rs + length imgs"
    if "arrayBuffer file = Inr buf \<and> isPdf file \<and> convertPdfToImages env buf = Inr imgs \<and>
        (\<forall>k<length imgs. generateContent env (n + k) (imgs ! k) ''image/png'' = Inr (resp k))"
    using that processFile_pages_ok [of "file" buf env imgs n resp rs] by auto
  have f: "fst (processFile env file (rs, n)) =
        rs @ map (\<lambda>k. okResult env (name file) (Some (k + 1)) (resp k)) [0..<j] @
          [errorResult file ''Error processing PDF: '' e] \<and>
      length (fst (processFile env file (rs, n))) = length rs + j + 1"
    if "arrayBuffer file = Inr buf \<and> isPdf file \<and> convertPdfToImages env buf = Inr imgs \<and>
        j < length imgs \<and>
        (\<forall>k<j. generateContent env (n + k) (imgs ! k) ''image/png'' = Inr (resp k)) \<and>
        generateContent env (n + j) (imgs ! j) ''image/png'' = Inl e"
    using that processFile_page_fault [of "file" buf env imgs j n resp e rs] by auto
  show ?thesis
    using processFiles_Cons_results [of env "file" files rs n] a b c d f
      imageName_okResult_page [of env "name file" k r]
    by blast
qed

theorem batch_order_and_length_witness:
  \<open>length (fst (processFile demoEnv demoUnreadable ([], 0))) = 1 \<and>
   length (fst (processFile demoEnv demoBadPdf ([], 0))) = 1 \<and>
   length (fst (processFile demoEnv demoPdf ([], 2))) = 3 \<and>
   length (fst (processFile demoEnv demoPdf ([], 0))) = 2\<close>
proof -
  have a: "arrayBuffer demoUnreadable = Inl ''read failed''"
    by (simp add: demoUnreadable_def)
  have b: "arrayBuffer demoBadPdf = Inr [] \<and> isPdf demoBadPdf \<and>
           convertPdfToImages demoEnv [] = Inl ''Invalid PDF structure''"
    using demo_isPdf demo_convert_bad by (simp add: demoBadPdf_def)
  have c: \<open>arrayBuffer demoPdf = Inr [7, 8, 9] \<and> isPdf demoPdf \<and>
           convertPdfToImages demoEnv [7, 8, 9] = Inr [[7, 2], [8, 2], [9, 2]] \<and>
           (\<forall>k<length [[7, 2], [8, 2], [9, 2::nat]].
              generateContent demoEnv (2 + k) ([[7, 2], [8, 2], [9, 2]] ! k) ''image/png'' =
                Inr (demoAnswer k))\<close>
    using demo_isPdf demo_convert by (simp add: demoPdf_def demoEnv_def demoAnswer_def)
  have d: \<open>arrayBuffer demoPdf = Inr [7, 8, 9] \<and> isPdf demoPdf \<and>
           convertPdfToImages demoEnv [7, 8, 9] = Inr [[7, 2], [8, 2], [9, 2]] \<and>
           1 < length [[7, 2], [8, 2], [9, 2::nat]] \<and>
           (\<forall>k<1. generateContent demoEnv (0 + k) ([[7, 2], [8, 2], [9, 2]] ! k) ''image/png'' =
                     Inr (demoAnswer k)) \<and>
           generateContent demoEnv (0 + 1) ([[7, 2], [8, 2], [9, 2]] ! 1) ''image/png'' =
             Inl ''fetch failed''\<close>
    using demo_isPdf demo_convert by (simp add: demoPdf_def demoEnv_def demoAnswer_def)
  have w1: "length (fst (processFile demoEnv demoUnreadable ([], 0))) = 1"
    using batch_order_and_length [of demoEnv demoUnreadable "[]" "[]" 0 "''read failed''"] a
    by simp
  have w2: "length (fst (processFile demoEnv demoBadPdf ([], 0))) = 1"
    using batch_order_and_length
      [of demoEnv demoBadPdf "[]" "[]" 0 "''Invalid PDF structure''" "[]"] b
    by simp
  have w3: "length (fst (processFile demoEnv demoPdf ([], 2))) = 3"
    using batch_order_and_length [of demoEnv demoPdf "[]" "[]" 2 _ "[7, 8, 9]"
        "[[7, 2], [8, 2], [9, 2]]" demoAnswer] c
    by simp
  have w4: "length (fst (processFile demoEnv demoPdf ([], 0))) = 2"
    using batch_order_and_length [of demoEnv demoPdf "[]" "[]" 0 "''fetch failed''" "[7, 8, 9]"
        "[[7, 2], [8, 2], [9, 2]]" demoAnswer 1] d
    by simp
  show ?thesis using w1 w2 w3 w4 by simp
qed

text \<open>
  Once the loader has returned \<open>createCanvas\<close>, \<open>convertPdfToImages\<close> returns one image per
  page, in page order from page 1 to the last page, each rendered at the scale 2, and the
  records of the pages are named with page numbers counted from 1.  When the loader
  returns \<open>null\<close> it fails with the message \<open>canvasMissing\<close>, the document gets a single
  error record, and the batch still answers with results, those of the remaining files
  following that record.
\<close>

lemma rasterizer_after_loading:
  "(getCreateCanvas env \<and> getDocument env buf = Inr pdf \<and>
    (\<forall>p. 1 \<le> p \<and> p \<le> numPages pdf \<longrightarrow> renderPage env pdf p viewportScale = Inr (img p)) \<longrightarrow>
      convertPdfToImages env buf = Inr (map img [1..<Suc (numPages pdf)])) \<and>
   2 \<le> viewportScale \<and>
   (arrayBuffer file = Inr buf \<and> isPdf file \<and> convertPdfToImages env buf = Inr imgs \<and>
    (\<forall>k<length imgs. generateContent env (n + k) (imgs ! k) ''image/png'' = Inr (resp k)) \<longrightarrow>
      map imageName (fst (processFile env file ([], n))) =
        map (\<lambda>k. name file @ '' (page '' @ showNat (k + 1) @ '')'') [0..<length imgs]) \<and>
   showNat (0 + 1) = ''1'' \<and>
   (\<not> getCreateCanvas env \<longrightarrow>
      convertPdfToImages env buf = Inl canvasMissing \<and>
      (arrayBuffer file = Inr buf \<and> isPdf file \<longrightarrow>
         processFile env file (rs, n) =
           (rs @ [errorResult file ''Error processing PDF: '' canvasMissing], n) \<and>
         (apiKey \<noteq> [] \<longrightarrow>
            POST env apiKey (file # files) =
              Results (errorResult file ''Error processing PDF: '' canvasMissing #
                       fst (processFiles env files ([], 0))))))"
proof -
  have a: "convertPdfToImages env buf = Inr (map img [1..<Suc (numPages pdf)])"
    if "getCreateCanvas env \<and> getDocument env buf = Inr pdf \<and>
        (\<forall>p. 1 \<le> p \<and> p \<le> numPages pdf \<longrightarrow> renderPage env pdf p viewportScale = Inr (img p))"
    using that convertPdfToImages_all [of env buf pdf img] by blast
  have b: "2 \<le> viewportScale" by (simp add: viewportScale_def)
  have c: "map imageName (fst (processFile env file ([], n))) =
        map (\<lambda>k. name file @ '' (page '' @ showNat (k + 1) @ '')'') [0..<length imgs]"
    if "arrayBuffer file = Inr buf \<and> isPdf file \<and> convertPdfToImages env buf = Inr imgs \<and>
        (\<forall>k<length imgs. generateContent env (n + k) (imgs ! k) ''image/png'' = Inr (resp k))"
  proof -
    have "fst (processFile env file ([], n)) =
            map (\<lambda>k. okResult env (name file) (Some (k + 1)) (resp k)) [0..<length imgs]"
      using that processFile_pages_ok [of "file" buf env imgs n resp "[]"] by simp
    then show ?thesis by (simp add: okResult_def displayName_def)
  qed
  have d: "showNat (0 + 1) = ''1''" by (simp add: showNat.simps)
  have e1: "convertPdfToImages env buf = Inl canvasMissing" if "\<not> getCreateCanvas env"
    using that by (rule convertPdfToImages_no_canvas)
  have e2: "processFile env file (rs, n) =
           (rs @ [errorResult file ''Error processing PDF: '' canvasMissing], n)"
    if "\<not> getCreateCanvas env" "arrayBuffer file = Inr buf \<and> isPdf file"
    using that processFile_raster_fault [of "file" buf env canvasMissing rs n] e1 by blast
  have e3: "POST env apiKey (file # files) =
              Results (errorResult file ''Error processing PDF: '' canvasMissing #
                       fst (processFiles env files ([], 0)))"
    if "\<not> getCreateCanvas env" "arrayBuffer file = Inr buf \<and> isPdf file" "apiKey \<noteq> []"
  proof -
    have "processFile env file ([], 0) =
            ([errorResult file ''Error processing PDF: '' canvasMissing], 0)"
      using that processFile_raster_fault [of "file" buf env canvasMissing "[]" 0] e1 by simp
    then show ?thesis using POST_Cons [OF that(3), of env "file" files] by simp
  qed
  show ?thesis using a b c d e1 e2 e3 by blast
qed

text \<open>
  Claim C7.  The claim asks for one page image per page of a document.  The route, run as
  the Node.js module it is, never gets that far: \<open>require\<close> is not a global there, so the
  loader returns \<open>null\<close> whatever is installed, \<open>convertPdfToImages\<close> fails with the message
  \<open>canvasMissing\<close> before the document is opened, and every document of a batch gets the
  single error record the claim keeps for a missing backend.
\<close>

theorem canvas_loader_never_loads:
  "\<not> requireGlobal env \<longrightarrow>
     \<not> getCreateCanvas env \<and>
     convertPdfToImages env buf = Inl canvasMissing \<and>
     (arrayBuffer file = Inr buf \<and> isPdf file \<longrightarrow>
        processFile env file (rs, n) =
          (rs @ [errorResult file ''Error processing PDF: '' canvasMissing], n))"
proof (intro impI conjI)
  assume g: "\<not> requireGlobal env"
  show l: "\<not> getCreateCanvas env" using g by (simp add: getCreateCanvas_def)
  show c: "convertPdfToImages env buf = Inl canvasMissing"
    using l by (rule convertPdfToImages_no_canvas)
  assume "arrayBuffer file = Inr buf \<and> isPdf file"
  then show "processFile env file (rs, n) =
      (rs @ [errorResult file ''Error processing PDF: '' canvasMissing], n)"
    using processFile_raster_fault [of "file" buf env canvasMissing rs n] c by blast
qed

text \<open>The failing input: a document of three pages, with the canvas module installed and
  a document reader that opens it.\<close>

theorem canvas_loader_never_loads_witness:
  \<open>requireModule demoNodeEnv ''canvas'' = Inr True \<and>
   getDocument demoNodeEnv [7, 8, 9] = Inr \<lparr>numPages = 3, pdfData = [7, 8, 9]\<rparr> \<and>
   convertPdfToImages demoNodeEnv [7, 8, 9] = Inl canvasMissing \<and>
   processFile demoNodeEnv demoPdf ([], 0) =
     ([\<lparr>imageName = ''thread.pdf'', comments = JArr [],
        rawResponse = ''Error processing PDF: '' @ canvasMissing\<rparr>], 0)\<close>
proof -
  have g: "\<not> requireGlobal demoNodeEnv" by (simp add: demoNodeEnv_def)
  have f: "arrayBuffer demoPdf = Inr [7, 8, 9] \<and> isPdf demoPdf"
    using demo_isPdf by (simp add: demoPdf_def)
  have w1: "requireModule demoNodeEnv ''canvas'' = Inr True \<and>
      getDocument demoNodeEnv [7, 8, 9] = Inr \<lparr>numPages = 3, pdfData = [7, 8, 9]\<rparr>"
    by (simp add: demoNodeEnv_def demoEnv_def)
  have w2: "convertPdfToImages demoNodeEnv [7, 8, 9] = Inl canvasMissing"
    using canvas_loader_never_loads [of demoNodeEnv "[7, 8, 9]" demoPdf "[]" 0] g by blast
  have w3: "processFile demoNodeEnv demoPdf ([], 0) =
      ([] @ [errorResult demoPdf ''Error processing PDF: '' canvasMissing], 0)"
    using canvas_loader_never_loads [of demoNodeEnv "[7, 8, 9]" demoPdf "[]" 0] g f by blast
  show ?thesis using w1 w2 w3 by (simp add: errorResult_def demoPdf_def)
qed

end
